theory Spec2Isabelle
  imports Main "HOL-Library.Multiset"
begin

section \<open>JavaScript values\<close>

text \<open>
  The cache stores arbitrary JavaScript values and \<open>getOrSet\<close> can be rejected with an
  arbitrary thrown value. Numbers are restricted to integers. An \<open>Error\<close> object is
  \<open>JError name message\<close>; its own properties are not enumerable.
\<close>

datatype jsval =
    JUndefined
  | JNull
  | JBool bool
  | JNum int
  | JStr string
  | JArr "jsval list"
  | JObj "(string \<times> jsval) list"
  | JError string string

text \<open>The settled outcome of a promise: the value an \<open>await\<close> yields, or the value it throws.\<close>

datatype 'a promise = Fulfilled 'a | Rejected jsval

definition TypeError :: "string \<Rightarrow> jsval" where
  "TypeError msg = JError ''TypeError'' msg"

text \<open>
  Property read \<open>v.name\<close>. Reading a property of \<open>undefined\<close> or \<open>null\<close> throws a
  \<open>TypeError\<close> (\<open>Inl\<close>). The \<open>stack\<close> of an error is cut to its first line. The model is
  used at the names \<open>message\<close> and \<open>stack\<close> only, so methods inherited from prototypes are
  left out.
\<close>

fun get_prop :: "jsval \<Rightarrow> string \<Rightarrow> jsval + jsval" where
  "get_prop JUndefined name =
     Inl (TypeError (''Cannot read properties of undefined (reading '' @ [CHR 0x27] @ name
                       @ [CHR 0x27] @ '')''))"
| "get_prop JNull name =
     Inl (TypeError (''Cannot read properties of null (reading '' @ [CHR 0x27] @ name
                       @ [CHR 0x27] @ '')''))"
| "get_prop (JObj ps) name = Inr (case map_of ps name of None \<Rightarrow> JUndefined | Some v \<Rightarrow> v)"
| "get_prop (JError nm msg) name =
     Inr (if name = ''message'' then JStr msg
          else if name = ''stack'' then JStr (nm @ '': '' @ msg)
          else if name = ''name'' then JStr nm
          else JUndefined)"
| "get_prop (JStr s) name = Inr (if name = ''length'' then JNum (int (length s)) else JUndefined)"
| "get_prop (JArr xs) name = Inr (if name = ''length'' then JNum (int (length xs)) else JUndefined)"
| "get_prop (JBool b) name = Inr JUndefined"
| "get_prop (JNum n) name = Inr JUndefined"

section \<open>The built-in \<open>Map\<close>\<close>

text \<open>
  A \<open>Map\<close> keeps its keys in insertion order; \<open>set\<close> on a key that is present
  replaces the value in place, \<open>delete\<close> removes the key.
\<close>

type_synonym ('k, 'v) jsmap = "('k \<times> 'v) list"

definition map_has :: "('k, 'v) jsmap \<Rightarrow> 'k \<Rightarrow> bool" where
  "map_has m k = (k \<in> fst ` set m)"

definition map_get :: "('k, 'v) jsmap \<Rightarrow> 'k \<Rightarrow> 'v option" where
  "map_get m k = map_of m k"

fun map_set :: "'k \<Rightarrow> 'v \<Rightarrow> ('k, 'v) jsmap \<Rightarrow> ('k, 'v) jsmap" where
  "map_set k v [] = [(k, v)]"
| "map_set k v (p # m) = (if fst p = k then (k, v) # m else p # map_set k v m)"

definition map_delete :: "'k \<Rightarrow> ('k, 'v) jsmap \<Rightarrow> ('k, 'v) jsmap" where
  "map_delete k m = filter (\<lambda>p. fst p \<noteq> k) m"

section \<open>\<open>Array.prototype.sort\<close> with a comparator\<close>

text \<open>
  The sort is stable: with a consistent comparator the result is the one of insertion
  sort, where an element goes before the first element it does not compare greater than.
\<close>

fun js_insort :: "('a \<Rightarrow> 'a \<Rightarrow> int) \<Rightarrow> 'a \<Rightarrow> 'a list \<Rightarrow> 'a list" where
  "js_insort cmp x [] = [x]"
| "js_insort cmp x (y # ys) = (if cmp x y \<le> 0 then x # y # ys else y # js_insort cmp x ys)"

fun js_sort :: "('a \<Rightarrow> 'a \<Rightarrow> int) \<Rightarrow> 'a list \<Rightarrow> 'a list" where
  "js_sort cmp [] = []"
| "js_sort cmp (x # xs) = js_insort cmp x (js_sort cmp xs)"

section \<open>State of a \<open>CacheService\<close>\<close>

record entry =
  data :: jsval
  created :: int
  lastAccessed :: int
  expires :: "int option"

text \<open>
  A handle returned by \<open>setTimeout\<close>. The callback of every handle the cache creates is
  the same closure over \<open>key\<close>, so the handle records the key and the time it is due.
\<close>

record timeout =
  tid :: nat
  tkey :: string
  due :: int

record config =
  defaultTTL :: int
  maxSize :: int
  enableLogging :: bool
  logger :: "string list option"
  cleanupInterval :: int

record log_call =
  level :: string
  message :: string
  metadata :: "(string \<times> jsval) list"

text \<open>
  \<open>cache\<close> and \<open>timers\<close> are the two maps of the class, \<open>config\<close> is \<open>_config\<close>,
  \<open>cleanupTimer\<close> is the period of the running \<open>setInterval\<close> (if any). \<open>timeouts\<close> are
  the one-shot timers pending in the runtime, \<open>next_tid\<close> the next fresh handle, and
  \<open>sink\<close> the calls the logger has received. A logger is the list of the levels it has
  a method for; \<open>None\<close> is \<open>null\<close>.
\<close>

record state =
  cache :: "(string, entry) jsmap"
  timers :: "(string, timeout) jsmap"
  config :: config
  cleanupTimer :: "int option"
  timeouts :: "timeout list"
  next_tid :: nat
  sink :: "log_call list"

subsection \<open>The timer facility\<close>

text \<open>
  Node replaces a delay below 1 or above \<open>2^31 - 1\<close> milliseconds by 1.
\<close>

definition node_delay :: "int \<Rightarrow> int" where
  "node_delay ms = (if ms < 1 \<or> ms > 2147483647 then 1 else ms)"

definition setTimeout :: "string \<Rightarrow> int \<Rightarrow> int \<Rightarrow> state \<Rightarrow> timeout \<times> state" where
  "setTimeout key ms now s =
     (let t = \<lparr>tid = next_tid s, tkey = key, due = now + node_delay ms\<rparr>
      in (t, s\<lparr>timeouts := timeouts s @ [t], next_tid := Suc (next_tid s)\<rparr>))"

definition clearTimeout :: "timeout \<Rightarrow> state \<Rightarrow> state" where
  "clearTimeout t s = s\<lparr>timeouts := filter (\<lambda>u. tid u \<noteq> tid t) (timeouts s)\<rparr>"

text \<open>
  The callback installed by \<open>set\<close>: \<open>cache.delete(key); timers.delete(key)\<close>. A pending
  handle can fire at any clock reading from its due time on; firing removes it from the
  runtime.
\<close>

definition fire :: "timeout \<Rightarrow> int \<Rightarrow> state \<Rightarrow> state" where
  "fire t now s =
     (if t \<in> set (timeouts s) \<and> due t \<le> now
      then s\<lparr>timeouts := filter (\<lambda>u. tid u \<noteq> tid t) (timeouts s),
             cache := map_delete (tkey t) (cache s),
             timers := map_delete (tkey t) (timers s)\<rparr>
      else s)"

subsection \<open>Logging\<close>

definition log :: "string \<Rightarrow> string \<Rightarrow> (string \<times> jsval) list \<Rightarrow> state \<Rightarrow> state" where
  "log lvl msg meta s =
     (if enableLogging (config s) \<and>
         (case logger (config s) of None \<Rightarrow> False | Some methods \<Rightarrow> lvl \<in> set methods)
      then s\<lparr>sink := sink s @ [\<lparr>level = lvl, message = msg, metadata = meta\<rparr>]\<rparr>
      else s)"

subsection \<open>Removal of a key with its timer\<close>

text \<open>
  The block \<open>if (this.timers.has(key)) { clearTimeout(this.timers.get(key));
  this.timers.delete(key); }\<close>, and the same block after \<open>this.cache.delete(key)\<close>.
\<close>

definition clear_timer :: "string \<Rightarrow> state \<Rightarrow> state" where
  "clear_timer key s =
     (case map_get (timers s) key of
        None \<Rightarrow> s
      | Some t \<Rightarrow> (clearTimeout t s)\<lparr>timers := map_delete key (timers s)\<rparr>)"

definition remove_key :: "string \<Rightarrow> state \<Rightarrow> state" where
  "remove_key key s = clear_timer key (s\<lparr>cache := map_delete key (cache s)\<rparr>)"

text \<open>\<open>entry.expires && now > entry.expires\<close>: \<open>null\<close> and \<open>0\<close> are falsy.\<close>

definition truthy :: "int option \<Rightarrow> bool" where
  "truthy e = (case e of None \<Rightarrow> False | Some x \<Rightarrow> x \<noteq> 0)"

definition is_expired :: "entry \<Rightarrow> int \<Rightarrow> bool" where
  "is_expired e now = (case expires e of None \<Rightarrow> False | Some x \<Rightarrow> x \<noteq> 0 \<and> now > x)"

subsection \<open>The sweep \<open>_cleanup\<close>\<close>

text \<open>
  The first loop runs over the entries the map holds when it starts; it deletes no key
  but the one it is visiting, so iterating the live map visits the same entries. The
  second loop runs over \<open>toRemove\<close>. \<open>size_pass\<close> is the size-based part of \<open>_cleanup\<close>.
\<close>

fun expire_loop :: "int \<Rightarrow> (string \<times> entry) list \<Rightarrow> state \<times> nat \<Rightarrow> state \<times> nat" where
  "expire_loop now [] (s, expiredCount) = (s, expiredCount)"
| "expire_loop now (p # rest) (s, expiredCount) =
     expire_loop now rest
       (if is_expired (snd p) now then (remove_key (fst p) s, Suc expiredCount)
        else (s, expiredCount))"

fun evict_loop :: "(string \<times> entry) list \<Rightarrow> state \<times> nat \<Rightarrow> state \<times> nat" where
  "evict_loop [] (s, evictedCount) = (s, evictedCount)"
| "evict_loop (p # rest) (s, evictedCount) =
     evict_loop rest (remove_key (fst p) s, Suc evictedCount)"

definition by_created :: "string \<times> entry \<Rightarrow> string \<times> entry \<Rightarrow> int" where
  "by_created a b = created (snd a) - created (snd b)"

definition size_pass :: "state \<Rightarrow> state \<times> nat" where
  "size_pass s =
     (if int (length (cache s)) > maxSize (config s)
      then let entries = js_sort by_created (cache s);
               toRemove = take (nat (int (length (cache s)) - maxSize (config s))) entries
           in evict_loop toRemove (s, 0)
      else (s, 0))"

definition cleanup :: "int \<Rightarrow> state \<Rightarrow> state" where
  "cleanup now s =
     (let beforeSize = length (cache s);
          (s1, expiredCount) = expire_loop now (cache s) (s, 0);
          (s2, evictedCount) = size_pass s1;
          afterSize = length (cache s2)
      in if expiredCount > 0 \<or> evictedCount > 0
         then log ''debug'' ''Cache cleanup completed''
                [(''beforeSize'', JNum (int beforeSize)), (''afterSize'', JNum (int afterSize)),
                 (''expiredCount'', JNum (int expiredCount)),
                 (''evictedCount'', JNum (int evictedCount))] s2
         else s2)"

subsection \<open>Store operations\<close>

text \<open>
  Every call reads the clock once (\<open>now\<close>, milliseconds). \<open>rnd\<close> is the outcome of
  \<open>Math.random() < 0.1\<close>. An omitted \<open>ttl\<close> is \<open>None\<close> and takes the default.
  The method \<open>set\<close> is \<open>set_cache\<close> here; \<open>_cleanup\<close> and \<open>_log\<close> are \<open>cleanup\<close> and \<open>log\<close>.
\<close>

definition get :: "string \<Rightarrow> int \<Rightarrow> state \<Rightarrow> jsval \<times> state" where
  "get key now s =
     (case map_get (cache s) key of
        None \<Rightarrow> (JNull, s)
      | Some entry \<Rightarrow>
          if is_expired entry now then (JNull, remove_key key s)
          else (data entry, s\<lparr>cache := map_set key (entry\<lparr>lastAccessed := now\<rparr>) (cache s)\<rparr>))"

definition set_cache :: "string \<Rightarrow> jsval \<Rightarrow> int option \<Rightarrow> int \<Rightarrow> bool \<Rightarrow> state \<Rightarrow> state" where
  "set_cache key d ttl_arg now rnd s =
     (let ttl = (case ttl_arg of None \<Rightarrow> defaultTTL (config s) | Some t \<Rightarrow> t);
          exp = (if ttl > 0 then Some (now + ttl * 1000) else None);
          s1 = clear_timer key s;
          s2 = s1\<lparr>cache := map_set key
                  \<lparr>data = d, created = now, lastAccessed = now, expires = exp\<rparr> (cache s1)\<rparr>;
          s3 = (if truthy exp
                then let (timer, s') = setTimeout key (ttl * 1000) now s2
                     in s'\<lparr>timers := map_set key timer (timers s')\<rparr>
                else s2)
      in if rnd then cleanup now s3 else s3)"

definition del :: "string \<Rightarrow> state \<Rightarrow> bool \<times> state" where
  "del key s = (let existed = map_has (cache s) key in (existed, remove_key key s))"

definition has :: "string \<Rightarrow> int \<Rightarrow> state \<Rightarrow> bool \<times> state" where
  "has key now s = (let (d, s') = get key now s in (d \<noteq> JNull, s'))"

text \<open>\<open>!entry.expires || now <= entry.expires\<close>\<close>

definition is_valid :: "entry \<Rightarrow> int \<Rightarrow> bool" where
  "is_valid e now = (case expires e of None \<Rightarrow> True | Some x \<Rightarrow> x = 0 \<or> now \<le> x)"

definition keys :: "int \<Rightarrow> state \<Rightarrow> string list" where
  "keys now s = map fst (filter (\<lambda>p. is_valid (snd p) now) (cache s))"

definition clear :: "state \<Rightarrow> state" where
  "clear s =
     (let s1 = fold clearTimeout (map snd (timers s)) s;
          clearedCount = length (cache s1)
      in log ''info'' ''In-memory cache cleared'' [(''clearedCount'', JNum (int clearedCount))]
           (s1\<lparr>cache := [], timers := []\<rparr>))"

subsection \<open>\<open>getOrSet\<close>\<close>

text \<open>
  \<open>queryFn\<close> is the settled outcome of the producer, \<open>now'\<close> the clock reading when it
  settles. The result carries whether the producer was invoked. No other call runs on
  the cache while the producer is awaited.
\<close>

definition getOrSet ::
  "string \<Rightarrow> jsval promise \<Rightarrow> int option \<Rightarrow> int \<Rightarrow> int \<Rightarrow> bool \<Rightarrow> state
     \<Rightarrow> (jsval promise \<times> bool) \<times> state" where
  "getOrSet key queryFn ttl_arg now now' rnd s =
     (let ttl = (case ttl_arg of None \<Rightarrow> defaultTTL (config s) | Some t \<Rightarrow> t);
          (cached, s1) = get key now s
      in if cached \<noteq> JNull then ((Fulfilled cached, False), s1)
         else case queryFn of
                Fulfilled d \<Rightarrow> ((Fulfilled d, True), set_cache key d (Some ttl) now' rnd s1)
              | Rejected error \<Rightarrow>
                  (case get_prop error ''message'' of
                     Inl e \<Rightarrow> ((Rejected e, True), s1)
                   | Inr m \<Rightarrow>
                       (case get_prop error ''stack'' of
                          Inl e \<Rightarrow> ((Rejected e, True), s1)
                        | Inr st \<Rightarrow>
                            ((Rejected error, True),
                             log ''error'' (''Error executing query for cache key '' @ key)
                               [(''error'', m), (''stack'', st)] s1))))"

subsection \<open>Construction and configuration\<close>

text \<open>An options object: \<open>None\<close> is a property that is not given.\<close>

record options =
  opt_defaultTTL :: "int option"
  opt_maxSize :: "int option"
  opt_enableLogging :: "bool option"
  opt_logger :: "string list option"
  opt_cleanupInterval :: "int option"

definition default_config :: config where
  "default_config =
     \<lparr>defaultTTL = 300, maxSize = 1000, enableLogging = False, logger = None,
      cleanupInterval = 60000\<rparr>"

text \<open>The spread \<open>{ ...this._config, ...options }\<close>.\<close>

definition merge_config :: "config \<Rightarrow> options \<Rightarrow> config" where
  "merge_config c opts =
     \<lparr>defaultTTL = (case opt_defaultTTL opts of None \<Rightarrow> defaultTTL c | Some v \<Rightarrow> v),
      maxSize = (case opt_maxSize opts of None \<Rightarrow> maxSize c | Some v \<Rightarrow> v),
      enableLogging = (case opt_enableLogging opts of None \<Rightarrow> enableLogging c | Some v \<Rightarrow> v),
      logger = (case opt_logger opts of None \<Rightarrow> logger c | Some v \<Rightarrow> Some v),
      cleanupInterval =
        (case opt_cleanupInterval opts of None \<Rightarrow> cleanupInterval c | Some v \<Rightarrow> v)\<rparr>"

definition startCleanupTimer :: "state \<Rightarrow> state" where
  "startCleanupTimer s =
     (if cleanupInterval (config s) > 0
      then s\<lparr>cleanupTimer := Some (node_delay (cleanupInterval (config s)))\<rparr>
      else s)"

definition stopCleanupTimer :: "state \<Rightarrow> state" where
  "stopCleanupTimer s = (case cleanupTimer s of None \<Rightarrow> s | Some i \<Rightarrow> s\<lparr>cleanupTimer := None\<rparr>)"

text \<open>
  The constructor calls \<open>logger.info\<close> directly, which throws when the logger has no
  such method.
\<close>

definition CacheService :: "options \<Rightarrow> jsval + state" where
  "CacheService opts =
     (let s = startCleanupTimer
                \<lparr>cache = [], timers = [], config = merge_config default_config opts,
                 cleanupTimer = None, timeouts = [], next_tid = 0, sink = []\<rparr>
      in case (if enableLogging (config s) then logger (config s) else None) of
           None \<Rightarrow> Inr s
         | Some methods \<Rightarrow>
             if ''info'' \<in> set methods
             then Inr (s\<lparr>sink := sink s @
                         [\<lparr>level = ''info'', message = ''In-memory cache service initialized'',
                           metadata = [(''maxSize'', JNum (maxSize (config s))),
                                       (''defaultTTL'', JNum (defaultTTL (config s)))]\<rparr>]\<rparr>)
             else Inl (TypeError ''this._config.logger.info is not a function''))"



definition setDefaultTTL :: "int \<Rightarrow> state \<Rightarrow> state" where
  "setDefaultTTL ttl s = s\<lparr>config := (config s)\<lparr>defaultTTL := ttl\<rparr>\<rparr>"


definition setMaxSize :: "int \<Rightarrow> int \<Rightarrow> state \<Rightarrow> state" where
  "setMaxSize n now s = cleanup now (s\<lparr>config := (config s)\<lparr>maxSize := n\<rparr>\<rparr>)"

definition getMaxSize :: "state \<Rightarrow> int" where
  "getMaxSize s = maxSize (config s)"

definition destroy :: "state \<Rightarrow> state" where
  "destroy s =
     (let s1 = stopCleanupTimer s;
          s2 = fold clearTimeout (map snd (timers s1)) s1
      in log ''info'' ''Cache service destroyed'' [] (s2\<lparr>cache := [], timers := []\<rparr>))"

section \<open>Objects, \<open>JSON.stringify\<close> and \<open>generateKey\<close>\<close>

text \<open>
  An object is the list of its own enumerable properties in creation order. Its keys
  are enumerated with the array indices first, in ascending numeric order, then the
  other keys in creation order.
\<close>

definition is_digit :: "char \<Rightarrow> bool" where
  "is_digit c = (c \<in> set ''0123456789'')"

definition index_val :: "string \<Rightarrow> int" where
  "index_val k = foldl (\<lambda>n c. 10 * n + (of_char c - 48)) 0 k"

definition is_index :: "string \<Rightarrow> bool" where
  "is_index k =
     (k \<noteq> [] \<and> list_all is_digit k \<and> (k = ''0'' \<or> hd k \<noteq> CHR ''0'')
      \<and> index_val k < 4294967295)"

definition own_order :: "(string \<times> 'a) list \<Rightarrow> (string \<times> 'a) list" where
  "own_order ps =
     sort_key (\<lambda>p. index_val (fst p)) (filter (\<lambda>p. is_index (fst p)) ps)
       @ filter (\<lambda>p. \<not> is_index (fst p)) ps"

definition Object_keys :: "(string \<times> 'a) list \<Rightarrow> string list" where
  "Object_keys ps = map fst (own_order ps)"

text \<open>\<open>params[key]\<close>\<close>

definition obj_get :: "(string \<times> jsval) list \<Rightarrow> string \<Rightarrow> jsval" where
  "obj_get ps key = (case map_of ps key of None \<Rightarrow> JUndefined | Some v \<Rightarrow> v)"

text \<open>
  \<open>result[key] = v\<close> on an ordinary object: the key \<open>__proto__\<close> is the prototype
  accessor, and assigning to it creates no own property.
\<close>

definition obj_assign :: "(string \<times> jsval) list \<Rightarrow> string \<Rightarrow> jsval \<Rightarrow> (string \<times> jsval) list" where
  "obj_assign result key v = (if key = ''__proto__'' then result else map_set key v result)"

function show_digits :: "int \<Rightarrow> string" where
  "show_digits n =
     (if n < 10 then [''0123456789'' ! nat n]
      else show_digits (n div 10) @ [''0123456789'' ! nat (n mod 10)])"
  by pat_completeness auto
termination
  by (relation "measure nat") auto

declare show_digits.simps [simp del]

definition show_int :: "int \<Rightarrow> string" where
  "show_int i = (if i < 0 then CHR ''-'' # show_digits (- i) else show_digits i)"

definition json_escape :: "char \<Rightarrow> string" where
  "json_escape c =
     (if c = CHR 0x22 then [CHR 0x5C, CHR 0x22]
      else if c = CHR 0x5C then [CHR 0x5C, CHR 0x5C]
      else if c = CHR 0x08 then [CHR 0x5C, CHR ''b'']
      else if c = CHR 0x09 then [CHR 0x5C, CHR ''t'']
      else if c = CHR 0x0A then [CHR 0x5C, CHR ''n'']
      else if c = CHR 0x0C then [CHR 0x5C, CHR ''f'']
      else if c = CHR 0x0D then [CHR 0x5C, CHR ''r'']
      else if (of_char c :: nat) < 32
      then [CHR 0x5C] @ ''u00'' @ [''0123456789abcdef'' ! ((of_char c :: nat) div 16),
                                  ''0123456789abcdef'' ! ((of_char c :: nat) mod 16)]
      else [c])"

definition json_quote :: "string \<Rightarrow> string" where
  "json_quote s = [CHR 0x22] @ concat (map json_escape s) @ [CHR 0x22]"

fun join_comma :: "string list \<Rightarrow> string" where
  "join_comma [] = []"
| "join_comma [x] = x"
| "join_comma (x # y # ys) = x @ '','' @ join_comma (y # ys)"

text \<open>
  \<open>JSON.stringify\<close>; \<open>None\<close> is the result \<open>undefined\<close>. A property whose value
  serialises to \<open>undefined\<close> is left out, an array element of that kind is \<open>null\<close>.
  Integers are printed in decimal, which is what JavaScript does below \<open>10^21\<close>.
\<close>

fun JSON_stringify :: "jsval \<Rightarrow> string option"
  and stringify_elems :: "jsval list \<Rightarrow> string list"
  and stringify_props :: "(string \<times> jsval) list \<Rightarrow> (string \<times> string) list" where
  "JSON_stringify JUndefined = None"
| "JSON_stringify JNull = Some ''null''"
| "JSON_stringify (JBool b) = Some (if b then ''true'' else ''false'')"
| "JSON_stringify (JNum n) = Some (show_int n)"
| "JSON_stringify (JStr s) = Some (json_quote s)"
| "JSON_stringify (JArr xs) = Some (''['' @ join_comma (stringify_elems xs) @ '']'')"
| "JSON_stringify (JObj ps) =
     Some (''{'' @ join_comma (map (\<lambda>p. json_quote (fst p) @ '':'' @ snd p)
                               (own_order (stringify_props ps))) @ ''}'')"
| "JSON_stringify (JError nm msg) = Some ''{}''"
| "stringify_elems [] = []"
| "stringify_elems (x # xs) =
     (case JSON_stringify x of None \<Rightarrow> ''null'' | Some t \<Rightarrow> t) # stringify_elems xs"
| "stringify_props [] = []"
| "stringify_props (p # ps) =
     (case JSON_stringify (snd p) of
        None \<Rightarrow> stringify_props ps
      | Some t \<Rightarrow> (fst p, t) # stringify_props ps)"

text \<open>
  \<open>String.prototype.localeCompare\<close>, called with no locale and no options, is the
  platform's collation: in Node.js the collation of ICU for the default locale, at its
  default strength, which for \<open>en-US\<close> and every locale without a tailoring of its own
  is the root collation. It is modelled on strings of ASCII letters, ASCII digits and
  the control characters that collation ignores (\<open>U+0000\<close> to \<open>U+0008\<close>, \<open>U+000E\<close> to
  \<open>U+001F\<close>, \<open>U+007F\<close>): the ignored characters are dropped; what is left is compared
  by letter or digit (digits before letters, case set aside), and when that does not
  decide, by case (lower before upper). On all other strings the collation is the
  parameter \<open>other\<close>.
\<close>

definition code :: "char \<Rightarrow> nat" where
  "code c = of_char c"

definition ignorable :: "char \<Rightarrow> bool" where
  "ignorable c = (code c \<le> 8 \<or> (14 \<le> code c \<and> code c \<le> 31) \<or> code c = 127)"

definition alnum :: "char \<Rightarrow> bool" where
  "alnum c =
     ((48 \<le> code c \<and> code c \<le> 57) \<or> (65 \<le> code c \<and> code c \<le> 90) \<or>
      (97 \<le> code c \<and> code c \<le> 122))"

definition covered :: "string \<Rightarrow> bool" where
  "covered a = list_all (\<lambda>c. ignorable c \<or> alnum c) a"

definition primary :: "char \<Rightarrow> nat" where
  "primary c =
     (if code c \<le> 57 then code c - 48 else if code c \<le> 90 then code c - 55 else code c - 87)"

definition tertiary :: "char \<Rightarrow> nat" where
  "tertiary c = (if 65 \<le> code c \<and> code c \<le> 90 then 1 else 0)"

fun lex_compare :: "nat list \<Rightarrow> nat list \<Rightarrow> int" where
  "lex_compare [] [] = 0"
| "lex_compare [] (y # ys) = - 1"
| "lex_compare (x # xs) [] = 1"
| "lex_compare (x # xs) (y # ys) =
     (if x < y then - 1 else if y < x then 1 else lex_compare xs ys)"

definition collate :: "string \<Rightarrow> string \<Rightarrow> int" where
  "collate a b =
     (let a' = filter (\<lambda>c. \<not> ignorable c) a;
          b' = filter (\<lambda>c. \<not> ignorable c) b;
          p = lex_compare (map primary a') (map primary b')
      in if p \<noteq> 0 then p else lex_compare (map tertiary a') (map tertiary b'))"

definition localeCompare :: "(string \<Rightarrow> string \<Rightarrow> int) \<Rightarrow> string \<Rightarrow> string \<Rightarrow> int" where
  "localeCompare other a b = (if covered a \<and> covered b then collate a b else other a b)"

definition generateKey ::
  "(string \<Rightarrow> string \<Rightarrow> int) \<Rightarrow> string \<Rightarrow> (string \<times> jsval) list \<Rightarrow> string" where
  "generateKey other endpoint params =
     (let sortedParams =
            fold (\<lambda>key result. obj_assign result key (obj_get params key))
                 (js_sort (localeCompare other) (Object_keys params)) [];
          paramString =
            (if length (Object_keys sortedParams) > 0
             then '':'' @ (case JSON_stringify (JObj sortedParams) of
                             None \<Rightarrow> ''undefined'' | Some t \<Rightarrow> t)
             else [])
      in ''api:'' @ endpoint @ paramString)"

text \<open>
  The legacy variant of the class sorts the keys with \<open>.sort()\<close>, by UTF-16 code unit.
\<close>

fun code_unit_compare :: "string \<Rightarrow> string \<Rightarrow> int" where
  "code_unit_compare [] [] = 0"
| "code_unit_compare [] (y # ys) = - 1"
| "code_unit_compare (x # xs) [] = 1"
| "code_unit_compare (x # xs) (y # ys) =
     (if code x < code y then - 1
      else if code y < code x then 1
      else code_unit_compare xs ys)"

definition legacy_generateKey :: "string \<Rightarrow> (string \<times> jsval) list \<Rightarrow> string" where
  "legacy_generateKey endpoint params =
     (let sortedParams =
            fold (\<lambda>key result. obj_assign result key (obj_get params key))
                 (js_sort code_unit_compare (Object_keys params)) [];
          paramString =
            (if length (Object_keys sortedParams) > 0
             then '':'' @ (case JSON_stringify (JObj sortedParams) of
                             None \<Rightarrow> ''undefined'' | Some t \<Rightarrow> t)
             else [])
      in ''api:'' @ endpoint @ paramString)"

text \<open>
  The comparator orders the keys \<open>K\<close> linearly: any two are comparable, only equal keys
  compare as equal, and the order is transitive.
\<close>

definition linear_on :: "('a \<Rightarrow> 'a \<Rightarrow> int) \<Rightarrow> 'a set \<Rightarrow> bool" where
  "linear_on cmp K =
     ((\<forall>a\<in>K. \<forall>b\<in>K. cmp a b \<le> 0 \<or> cmp b a \<le> 0) \<and>
      (\<forall>a\<in>K. \<forall>b\<in>K. cmp a b \<le> 0 \<and> cmp b a \<le> 0 \<longrightarrow> a = b) \<and>
      (\<forall>a\<in>K. \<forall>b\<in>K. \<forall>c\<in>K. cmp a b \<le> 0 \<and> cmp b c \<le> 0 \<longrightarrow> cmp a c \<le> 0))"

section \<open>Calls and events\<close>

text \<open>
  The public calls of the class, the periodic sweep and the firing of a pending
  timeout. \<open>exec\<close> runs one of them at the clock reading \<open>now\<close> and gives the settled
  promise (or, for an event, \<open>Void\<close>) with the next state.
\<close>

datatype op =
    Get string
  | SetKey string jsval "int option" bool
  | Del string
  | Has string
  | Keys
  | Clear
  | GetOrSet string "jsval promise" "int option" int bool
  | SetMaxSize int
  | SetDefaultTTL int
  | Destroy
  | Sweep
  | Fire timeout

datatype result = Value jsval | Flag bool | KeyList "string list" | Void

fun exec :: "op \<Rightarrow> int \<Rightarrow> state \<Rightarrow> result promise \<times> state" where
  "exec (Get key) now s = (let (v, s') = get key now s in (Fulfilled (Value v), s'))"
| "exec (SetKey key d ttl rnd) now s = (Fulfilled Void, set_cache key d ttl now rnd s)"
| "exec (Del key) now s = (let (b, s') = del key s in (Fulfilled (Flag b), s'))"
| "exec (Has key) now s = (let (b, s') = has key now s in (Fulfilled (Flag b), s'))"
| "exec Keys now s = (Fulfilled (KeyList (keys now s)), s)"
| "exec Clear now s = (Fulfilled Void, clear s)"
| "exec (GetOrSet key queryFn ttl now' rnd) now s =
     (let ((r, invoked), s') = getOrSet key queryFn ttl now now' rnd s
      in (case r of Fulfilled v \<Rightarrow> Fulfilled (Value v) | Rejected e \<Rightarrow> Rejected e, s'))"
| "exec (SetMaxSize n) now s = (Fulfilled Void, setMaxSize n now s)"
| "exec (SetDefaultTTL t) now s = (Fulfilled Void, setDefaultTTL t s)"
| "exec Destroy now s = (Fulfilled Void, destroy s)"
| "exec Sweep now s = (Fulfilled Void, cleanup now s)"
| "exec (Fire t) now s = (Fulfilled Void, fire t now s)"

definition step :: "op \<times> int \<Rightarrow> state \<Rightarrow> state" where
  "step e s = snd (exec (fst e) (snd e) s)"

definition run :: "(op \<times> int) list \<Rightarrow> state \<Rightarrow> state" where
  "run evs s = fold step evs s"


section \<open>Invariants\<close>

text \<open>I1: every key with a handle in \<open>timers\<close> has an entry in \<open>cache\<close>.\<close>

definition I1 :: "state \<Rightarrow> bool" where
  "I1 s = (fst ` set (timers s) \<subseteq> fst ` set (cache s))"

text \<open>
  The two lists are maps (no key twice), and every timeout pending in the runtime is
  the handle that \<open>timers\<close> holds for its key.
\<close>

definition well_formed :: "state \<Rightarrow> bool" where
  "well_formed s =
     (distinct (map fst (cache s)) \<and> distinct (map fst (timers s)) \<and>
      (\<forall>t\<in>set (timeouts s). map_get (timers s) (tkey t) = Some t))"

text \<open>The instance made by \<open>new CacheService()\<close>.\<close>

definition fresh :: state where
  "fresh =
     \<lparr>cache = [], timers = [], config = default_config, cleanupTimer = Some 60000,
      timeouts = [], next_tid = 0, sink = []\<rparr>"

text \<open>
  The calls that can write an entry under \<open>key\<close>.
\<close>

fun writes_key :: "string \<Rightarrow> op \<Rightarrow> bool" where
  "writes_key key (SetKey k d ttl rnd) = (k = key)"
| "writes_key key (GetOrSet k queryFn ttl now' rnd) = (k = key)"
| "writes_key key other = False"

text \<open>
  \<open>key\<close> has either no entry, or an entry with the data \<open>d\<close> and the expiry \<open>x\<close>.
\<close>

definition stored_or_gone :: "string \<Rightarrow> jsval \<Rightarrow> int option \<Rightarrow> state \<Rightarrow> bool" where
  "stored_or_gone key d x s =
     (case map_get (cache s) key of None \<Rightarrow> True | Some e \<Rightarrow> data e = d \<and> expires e = x)"

text \<open>
  The store is well formed, \<open>key\<close> has an entry with the data \<open>d\<close> and the expiry \<open>x\<close>,
  and a handle of \<open>key\<close> in \<open>timers\<close> is not due before \<open>x\<close> (there is none when \<open>x\<close> is
  \<open>null\<close>).
\<close>

definition kept :: "string \<Rightarrow> jsval \<Rightarrow> int option \<Rightarrow> state \<Rightarrow> bool" where
  "kept key d x s =
     (well_formed s \<and>
      (case map_get (cache s) key of None \<Rightarrow> False | Some e \<Rightarrow> data e = d \<and> expires e = x) \<and>
      (case map_get (timers s) key of
         None \<Rightarrow> True
       | Some t \<Rightarrow> (case x of None \<Rightarrow> False | Some y \<Rightarrow> y \<le> due t)))"

definition valid_at :: "int option \<Rightarrow> int \<Rightarrow> bool" where
  "valid_at x now = (case x of None \<Rightarrow> True | Some y \<Rightarrow> now \<le> y)"

text \<open>The entries that are not expired at the clock reading \<open>now\<close>, in their order.\<close>

definition unexpired :: "int \<Rightarrow> state \<Rightarrow> (string \<times> entry) list" where
  "unexpired now s = filter (\<lambda>p. \<not> is_expired (snd p) now) (cache s)"

text \<open>
  The keys that the size-based part of a sweep at \<open>now\<close> removes from a store of
  distinct keys: those of \<open>toRemove\<close>, computed from the entries that are left after the
  time-based part.
\<close>

definition evicted_keys :: "int \<Rightarrow> state \<Rightarrow> string list" where
  "evicted_keys now s =
     (if int (length (unexpired now s)) > maxSize (config s)
      then map fst (take (nat (int (length (unexpired now s)) - maxSize (config s)))
                      (js_sort by_created (unexpired now s)))
      else [])"

text \<open>
  The sweep that a call or event runs, if it runs one: the clock reading and the state
  in which \<open>_cleanup\<close> starts.
\<close>

fun sweep_of :: "op \<Rightarrow> int \<Rightarrow> state \<Rightarrow> (int \<times> state) option" where
  "sweep_of Sweep now s = Some (now, s)"
| "sweep_of (SetKey key d ttl rnd) now s =
     (if rnd then Some (now, set_cache key d ttl now False s) else None)"
| "sweep_of (SetMaxSize n) now s = Some (now, s\<lparr>config := (config s)\<lparr>maxSize := n\<rparr>\<rparr>)"
| "sweep_of (GetOrSet key queryFn ttl now' rnd) now s =
     (case queryFn of
        Fulfilled d \<Rightarrow>
          if rnd \<and> fst (get key now s) = JNull
          then Some (now', set_cache key d
                             (Some (case ttl of None \<Rightarrow> defaultTTL (config s) | Some t \<Rightarrow> t))
                             now' False (snd (get key now s)))
          else None
      | Rejected e \<Rightarrow> None)"
| "sweep_of other now s = None"

text \<open>The calls that delete the entry of \<open>key\<close>, and those that read \<open>key\<close>.\<close>

fun deletes_key :: "string \<Rightarrow> op \<Rightarrow> bool" where
  "deletes_key key (Del k) = (k = key)"
| "deletes_key key Clear = True"
| "deletes_key key Destroy = True"
| "deletes_key key other = False"

fun reads_key :: "string \<Rightarrow> op \<Rightarrow> bool" where
  "reads_key key (Get k) = (k = key)"
| "reads_key key (Has k) = (k = key)"
| "reads_key key (GetOrSet k queryFn ttl now' rnd) = (k = key)"
| "reads_key key other = False"

text \<open>The timeout of \<open>key\<close> does not fire at or after the instant \<open>x\<close>.\<close>

fun timer_waits :: "string \<Rightarrow> int option \<Rightarrow> op \<Rightarrow> int \<Rightarrow> bool" where
  "timer_waits key x (Fire t) now =
     (tkey t \<noteq> key \<or> (case x of None \<Rightarrow> True | Some y \<Rightarrow> now < y))"
| "timer_waits key x other now = True"

text \<open>
  A call or event, in the state \<open>s\<close>, leaves alone an entry of \<open>key\<close> that has the expiry
  \<open>x\<close>: it does not write \<open>key\<close> and does not delete it; if it reads \<open>key\<close> or runs a sweep,
  it does so no later than \<open>x\<close>; the sweep it runs does not evict \<open>key\<close> by size; and it is
  not the timeout of \<open>key\<close> firing at \<open>x\<close> or later. \<open>calm_run\<close> says so of every step of a
  history.
\<close>

definition calm :: "string \<Rightarrow> int option \<Rightarrow> op \<times> int \<Rightarrow> state \<Rightarrow> bool" where
  "calm key x ev s =
     (\<not> writes_key key (fst ev) \<and> \<not> deletes_key key (fst ev) \<and>
      (reads_key key (fst ev) \<longrightarrow> valid_at x (snd ev)) \<and>
      timer_waits key x (fst ev) (snd ev) \<and>
      (case sweep_of (fst ev) (snd ev) s of
         None \<Rightarrow> True
       | Some (now, u) \<Rightarrow> valid_at x now \<and> key \<notin> set (evicted_keys now u)))"

fun calm_run :: "string \<Rightarrow> int option \<Rightarrow> (op \<times> int) list \<Rightarrow> state \<Rightarrow> bool" where
  "calm_run key x [] s = True"
| "calm_run key x (ev # evs) s = (calm key x ev s \<and> calm_run key x evs (step ev s))"

text \<open>
  Three insertions without expiry into an instance with \<open>maxSize = 2\<close>, at the clock
  readings 1, 2 and 3.
\<close>

definition scenario_A :: state where
  "scenario_A =
     set_cache ''c'' (JNum 3) (Some 0) 3 False
       (set_cache ''b'' (JNum 2) (Some 0) 2 False
          (set_cache ''a'' (JNum 1) (Some 0) 1 False
             (fresh\<lparr>config := default_config\<lparr>maxSize := 2\<rparr>\<rparr>)))"

text \<open>
  A store of capacity 2 that holds one entry without expiry, created at the clock
  reading 0.
\<close>

definition one_old :: state where
  "one_old =
     set_cache ''old'' (JNum 0) (Some 0) 0 False
       (fresh\<lparr>config := default_config\<lparr>maxSize := 2\<rparr>\<rparr>)"

section \<open>Basic facts about the maps and the removal of a key\<close>

lemma map_of_map_set: "map_of (map_set k v m) = (map_of m)(k \<mapsto> v)"
  by (induction m) (auto simp: fun_eq_iff)

lemma keys_map_set: "fst ` set (map_set k v m) = insert k (fst ` set m)"
  by (induction m) auto

lemma distinct_map_set: "distinct (map fst m) \<Longrightarrow> distinct (map fst (map_set k v m))"
  by (induction m) (auto simp: keys_map_set)

lemma length_map_set:
  "length (map_set k v m) = (if k \<in> fst ` set m then length m else Suc (length m))"
  by (induction m) auto

lemma map_of_map_delete: "map_of (map_delete k m) = (map_of m)(k := None)"
  by (induction m) (auto simp: map_delete_def fun_eq_iff)

lemma keys_map_delete: "fst ` set (map_delete k m) = fst ` set m - {k}"
  by (auto simp: map_delete_def)

lemma distinct_map_delete: "distinct (map fst m) \<Longrightarrow> distinct (map fst (map_delete k m))"
  by (simp add: map_delete_def distinct_map_filter)

lemma map_delete_absent: "k \<notin> fst ` set m \<Longrightarrow> map_delete k m = m"
  by (induction m) (auto simp: map_delete_def)

lemma map_of_None_keys: "(map_of m k = None) = (k \<notin> fst ` set m)"
  by (simp add: map_of_eq_None_iff)

lemma cache_clear_timer [simp]: "cache (clear_timer k s) = cache s"
  by (simp add: clear_timer_def clearTimeout_def split: option.splits)

lemma config_clear_timer [simp]: "config (clear_timer k s) = config s"
  by (simp add: clear_timer_def clearTimeout_def split: option.splits)

lemma sink_clear_timer [simp]: "sink (clear_timer k s) = sink s"
  by (simp add: clear_timer_def clearTimeout_def split: option.splits)

lemma timers_clear_timer [simp]: "timers (clear_timer k s) = map_delete k (timers s)"
  by (simp add: clear_timer_def clearTimeout_def map_get_def map_delete_absent map_of_None_keys
           split: option.splits)

lemma timeouts_clear_timer:
  "timeouts (clear_timer k s) =
     (case map_get (timers s) k of None \<Rightarrow> timeouts s
      | Some t \<Rightarrow> filter (\<lambda>u. tid u \<noteq> tid t) (timeouts s))"
  by (simp add: clear_timer_def clearTimeout_def split: option.splits)

lemma cache_remove_key [simp]: "cache (remove_key k s) = map_delete k (cache s)"
  by (simp add: remove_key_def)

lemma timers_remove_key [simp]: "timers (remove_key k s) = map_delete k (timers s)"
  by (simp add: remove_key_def)

lemma config_remove_key [simp]: "config (remove_key k s) = config s"
  by (simp add: remove_key_def)

lemma sink_remove_key [simp]: "sink (remove_key k s) = sink s"
  by (simp add: remove_key_def)

lemma timeouts_remove_key:
  "timeouts (remove_key k s) =
     (case map_get (timers s) k of None \<Rightarrow> timeouts s
      | Some t \<Rightarrow> filter (\<lambda>u. tid u \<noteq> tid t) (timeouts s))"
  by (simp add: remove_key_def timeouts_clear_timer split: option.splits)

lemma log_fields [simp]:
  "cache (log l m d s) = cache s" "timers (log l m d s) = timers s"
  "config (log l m d s) = config s" "timeouts (log l m d s) = timeouts s"
  "cleanupTimer (log l m d s) = cleanupTimer s" "next_tid (log l m d s) = next_tid s"
  by (simp_all add: log_def)

section \<open>Deletion\<close>

text \<open>
  C5. \<open>del(k)\<close> returns whether \<open>k\<close> had an entry, and afterwards \<open>k\<close> has neither an
  entry nor a handle in \<open>timers\<close>, and the handle it had is no longer pending in the
  runtime. For a key that is present, two calls in succession return \<open>true\<close>, then
  \<open>false\<close>. Both calls settle as fulfilled promises: \<open>del\<close> has no path that throws.
\<close>

theorem del_twice:
  "fst (del k s) = map_has (cache s) k \<and>
   \<not> map_has (cache (snd (del k s))) k \<and>
   \<not> map_has (timers (snd (del k s))) k \<and>
   (\<forall>t. map_get (timers s) k = Some t \<longrightarrow> t \<notin> set (timeouts (snd (del k s)))) \<and>
   (map_has (cache s) k \<longrightarrow> fst (del k s) \<and> \<not> fst (del k (snd (del k s)))) \<and>
   (\<exists>b s'. exec (Del k) now s = (Fulfilled (Flag b), s')) \<and>
   (\<exists>b s'. exec (Del k) now' (snd (exec (Del k) now s)) = (Fulfilled (Flag b), s'))"
  by (auto simp: del_def map_has_def keys_map_delete timeouts_remove_key Let_def)

theorem del_twice_witness:
  "map_has (cache (set_cache ''k'' (JNum 1) (Some 60) 0 False fresh)) ''k'' \<and>
   map_get (timers (set_cache ''k'' (JNum 1) (Some 60) 0 False fresh)) ''k''
     = Some \<lparr>tid = 0, tkey = ''k'', due = 60000\<rparr> \<and>
   fst (del ''k'' (set_cache ''k'' (JNum 1) (Some 60) 0 False fresh)) \<and>
   \<not> fst (del ''k'' (snd (del ''k'' (set_cache ''k'' (JNum 1) (Some 60) 0 False fresh)))) \<and>
   \<lparr>tid = 0, tkey = ''k'', due = 60000\<rparr>
     \<notin> set (timeouts (snd (del ''k'' (set_cache ''k'' (JNum 1) (Some 60) 0 False fresh))))"
proof -
  let ?s = "set_cache ''k'' (JNum 1) (Some 60) 0 False fresh"
  have h1: "map_has (cache ?s) ''k''"
    by (simp add: set_cache_def fresh_def clear_timer_def map_get_def map_has_def truthy_def
          setTimeout_def node_delay_def Let_def)
  have h2: "map_get (timers ?s) ''k'' = Some \<lparr>tid = 0, tkey = ''k'', due = 60000\<rparr>"
    by (simp add: set_cache_def fresh_def clear_timer_def map_get_def map_has_def truthy_def
          setTimeout_def node_delay_def Let_def)
  from del_twice [of "''k''" ?s 0 0] h1 h2 show ?thesis by blast
qed

section \<open>The sweep\<close>

lemma expire_loop_cache:
  "cache (fst (expire_loop now xs (s, n))) =
     filter (\<lambda>p. fst p \<notin> fst ` {q \<in> set xs. is_expired (snd q) now}) (cache s)"
proof (induction xs arbitrary: s n)
  case Nil
  then show ?case by simp
next
  case (Cons x xs)
  show ?case
    by (auto simp: Cons.IH map_delete_def intro!: filter_cong)
qed

lemma expire_loop_timers:
  "timers (fst (expire_loop now xs (s, n))) =
     filter (\<lambda>p. fst p \<notin> fst ` {q \<in> set xs. is_expired (snd q) now}) (timers s)"
proof (induction xs arbitrary: s n)
  case Nil
  then show ?case by simp
next
  case (Cons x xs)
  show ?case
    by (auto simp: Cons.IH map_delete_def intro!: filter_cong)
qed

lemma expire_loop_config [simp]: "config (fst (expire_loop now xs (s, n))) = config s"
  by (induction xs arbitrary: s n) simp_all

lemma expire_loop_count:
  "snd (expire_loop now xs (s, n)) = n + length (filter (\<lambda>p. is_expired (snd p) now) xs)"
  by (induction xs arbitrary: s n) simp_all

lemma evict_loop_cache:
  "cache (fst (evict_loop xs (s, n))) = filter (\<lambda>p. fst p \<notin> fst ` set xs) (cache s)"
proof (induction xs arbitrary: s n)
  case Nil
  then show ?case by simp
next
  case (Cons x xs)
  show ?case
    by (simp add: Cons.IH map_delete_def)
qed

lemma evict_loop_timers:
  "timers (fst (evict_loop xs (s, n))) = filter (\<lambda>p. fst p \<notin> fst ` set xs) (timers s)"
proof (induction xs arbitrary: s n)
  case Nil
  then show ?case by simp
next
  case (Cons x xs)
  show ?case
    by (simp add: Cons.IH map_delete_def)
qed

lemma evict_loop_config [simp]: "config (fst (evict_loop xs (s, n))) = config s"
  by (induction xs arbitrary: s n) simp_all

lemma evict_loop_count: "snd (evict_loop xs (s, n)) = n + length xs"
  by (induction xs arbitrary: s n) simp_all

lemma mset_js_insort: "mset (js_insort cmp x xs) = add_mset x (mset xs)"
  by (induction xs) auto

lemma mset_js_sort: "mset (js_sort cmp xs) = mset xs"
  by (induction xs) (auto simp: mset_js_insort)

lemma set_js_sort: "set (js_sort cmp xs) = set xs"
  by (metis mset_js_sort set_mset_mset)

lemma length_js_sort: "length (js_sort cmp xs) = length xs"
  by (metis mset_js_sort size_mset)

lemma distinct_js_sort: "distinct (js_sort cmp xs) = distinct xs"
  by (metis mset_js_sort distinct_count_atmost_1 set_mset_mset)

lemma cache_cleanup:
  "cache (cleanup now s) = cache (fst (size_pass (fst (expire_loop now (cache s) (s, 0)))))"
  by (simp add: cleanup_def Let_def split: prod.splits)

lemma timers_cleanup:
  "timers (cleanup now s) = timers (fst (size_pass (fst (expire_loop now (cache s) (s, 0)))))"
  by (simp add: cleanup_def Let_def split: prod.splits)

lemma config_size_pass [simp]: "config (fst (size_pass s)) = config s"
  by (simp add: size_pass_def Let_def)

lemma config_cleanup [simp]: "config (cleanup now s) = config s"
  by (simp add: cleanup_def Let_def split: prod.splits)
     (metis config_size_pass expire_loop_config fst_conv)

lemma filter_removed_length:
  assumes "mset R \<subseteq># mset xs"
  shows "length (filter (\<lambda>p. fst p \<notin> fst ` set R) xs) + length R \<le> length xs"
proof -
  let ?P = "\<lambda>p. fst p \<notin> fst ` set R"
  have "filter_mset ?P (mset R) = {#}"
    by auto
  moreover have "mset xs = mset R + (mset xs - mset R)"
    using assms by simp
  ultimately have "filter_mset ?P (mset xs) = filter_mset ?P (mset xs - mset R)"
    by (metis add.left_neutral filter_union_mset)
  then have "size (filter_mset ?P (mset xs)) \<le> size (mset xs - mset R)"
    by (metis multiset_filter_subset size_mset_mono)
  also have "\<dots> = length xs - length R"
    using assms by (simp add: size_Diff_submset)
  finally have "length (filter ?P xs) \<le> length xs - length R"
    by (metis mset_filter size_mset)
  moreover have "length R \<le> length xs"
    using assms by (metis size_mset size_mset_mono)
  ultimately show ?thesis by linarith
qed

lemma mset_take_sub: "mset (take n xs) \<subseteq># mset xs"
  by (metis append_take_drop_id mset_append mset_subset_eq_add_left)

lemma size_pass_bound:
  assumes "0 \<le> maxSize (config s)"
  shows "int (length (cache (fst (size_pass s)))) \<le> maxSize (config s)"
proof (cases "int (length (cache s)) > maxSize (config s)")
  case False
  then show ?thesis by (simp add: size_pass_def)
next
  case True
  let ?m = "nat (int (length (cache s)) - maxSize (config s))"
  let ?R = "take ?m (js_sort by_created (cache s))"
  have "mset ?R \<subseteq># mset (cache s)"
    by (metis mset_take_sub mset_js_sort)
  then have "length (filter (\<lambda>p. fst p \<notin> fst ` set ?R) (cache s)) + length ?R
               \<le> length (cache s)"
    by (rule filter_removed_length)
  moreover have "length ?R = ?m"
    using assms True by (simp add: length_js_sort)
  ultimately show ?thesis
    using True assms by (simp add: size_pass_def Let_def evict_loop_cache)
qed

lemma cleanup_bound:
  "0 \<le> maxSize (config s) \<Longrightarrow> int (length (cache (cleanup now s))) \<le> maxSize (config s)"
  using size_pass_bound [of "fst (expire_loop now (cache s) (s, 0))"]
  by (simp add: cache_cleanup)

lemma js_insort_by_created: "js_insort by_created x xs = insort_key (\<lambda>p. created (snd p)) x xs"
  by (induction xs) (auto simp: by_created_def)

lemma js_sort_by_created: "js_sort by_created xs = sort_key (\<lambda>p. created (snd p)) xs"
  by (induction xs) (auto simp: js_insort_by_created)

lemma set_cache_sweep:
  "set_cache k v ttl now True s = cleanup now (set_cache k v ttl now False s)"
  by (simp add: set_cache_def Let_def)

lemma config_set_cache_quiet [simp]: "config (set_cache k v ttl now False s) = config s"
  by (simp add: set_cache_def Let_def setTimeout_def split: prod.splits)

text \<open>
  C2. With a positive \<open>maxSize\<close>, the store holds at most \<open>maxSize\<close> entries when the
  sweep has completed: when the periodic timer runs it, when \<open>set\<close> runs it after the
  insertion, and when \<open>setMaxSize\<close> runs it under the new bound.
\<close>

theorem sweep_size_bound:
  "(0 < maxSize (config s) \<longrightarrow>
      int (length (cache (snd (exec Sweep now s)))) \<le> maxSize (config s) \<and>
      int (length (cache (set_cache k v ttl now True s))) \<le> maxSize (config s)) \<and>
   (0 < n \<longrightarrow>
      int (length (cache (setMaxSize n now s))) \<le> n \<and> getMaxSize (setMaxSize n now s) = n)"
proof -
  have a: "int (length (cache (cleanup now s))) \<le> maxSize (config s)" if "0 < maxSize (config s)"
    using that by (simp add: cleanup_bound)
  have b: "int (length (cache (set_cache k v ttl now True s))) \<le> maxSize (config s)"
    if "0 < maxSize (config s)"
    using that cleanup_bound [of "set_cache k v ttl now False s" now]
    by (simp add: set_cache_sweep)
  have c: "int (length (cache (setMaxSize n now s))) \<le> n" if "0 < n"
    using that cleanup_bound [of "s\<lparr>config := (config s)\<lparr>maxSize := n\<rparr>\<rparr>" now]
    by (simp add: setMaxSize_def)
  have d: "getMaxSize (setMaxSize n now s) = n"
    by (simp add: setMaxSize_def getMaxSize_def)
  from a b c d show ?thesis by simp
qed

lemma expire_loop_none:
  assumes "\<forall>p\<in>set xs. \<not> is_expired (snd p) now"
  shows "expire_loop now xs (s, n) = (s, n)"
  using assms by (induction xs) simp_all

lemma key_filter_distinct:
  assumes "distinct (map fst xs)" and "set R \<subseteq> set xs"
  shows "filter (\<lambda>p. fst p \<notin> fst ` set R) xs = filter (\<lambda>p. p \<notin> set R) xs"
proof (rule filter_cong [OF refl])
  fix p assume p: "p \<in> set xs"
  have "inj_on fst (set xs)"
    using assms(1) by (simp add: distinct_map)
  then have "fst p \<in> fst ` set R \<longleftrightarrow> p \<in> set R"
    using p assms(2) by (auto dest: inj_onD)
  then show "(fst p \<notin> fst ` set R) = (p \<notin> set R)" by simp
qed

lemma length_filter_not_take:
  assumes "distinct ys" and "mset ys = mset xs"
  shows "length (filter (\<lambda>p. p \<notin> set (take m ys)) xs) = length ys - m"
proof -
  let ?P = "\<lambda>p. p \<notin> set (take m ys)"
  have d: "set (take m ys) \<inter> set (drop m ys) = {}"
    using assms(1) by (metis append_take_drop_id distinct_append)
  have "length (filter ?P xs) = size (filter_mset ?P (mset xs))"
    by (metis mset_filter size_mset)
  also have "\<dots> = length (filter ?P ys)"
    by (metis assms(2) mset_filter size_mset)
  also have "\<dots> = length (filter ?P (take m ys)) + length (filter ?P (drop m ys))"
    by (metis append_take_drop_id filter_append length_append)
  also have "filter ?P (take m ys) = []"
    by simp
  also have "filter ?P (drop m ys) = drop m ys"
    using d by (auto simp: filter_id_conv)
  finally show ?thesis by simp
qed

lemma take_le_drop:
  assumes "sorted (map f ys)" and "r \<in> set (take m ys)" and "q \<in> set (drop m ys)"
  shows "f r \<le> f q"
proof -
  have "sorted (map f (take m ys) @ map f (drop m ys))"
    using assms(1) by (metis append_take_drop_id map_append)
  then show ?thesis
    using assms(2,3) by (auto simp: sorted_append)
qed

lemma expired_filter_distinct:
  assumes "distinct (map fst xs)"
  shows "filter (\<lambda>p. fst p \<notin> fst ` {q \<in> set xs. E q}) xs = filter (\<lambda>p. \<not> E p) xs"
proof (rule filter_cong [OF refl])
  fix p assume p: "p \<in> set xs"
  have "inj_on fst (set xs)"
    using assms by (simp add: distinct_map)
  then have "fst p \<in> fst ` {q \<in> set xs. E q} \<longleftrightarrow> E p"
    using p by (auto dest: inj_onD)
  then show "(fst p \<notin> fst ` {q \<in> set xs. E q}) = (\<not> E p)" by simp
qed

lemma cache_after_expire_loop:
  "distinct (map fst (cache s)) \<Longrightarrow>
   cache (fst (expire_loop now (cache s) (s, 0)))
     = filter (\<lambda>p. \<not> is_expired (snd p) now) (cache s)"
  by (simp add: expire_loop_cache expired_filter_distinct)

lemma size_pass_oldest:
  assumes "distinct (map fst (cache s))"
    and "0 \<le> maxSize (config s)"
    and "maxSize (config s) < int (length (cache s))"
  shows "set (cache (fst (size_pass s))) \<subseteq> set (cache s) \<and>
         cache (fst (size_pass s)) = filter (\<lambda>p. p \<in> set (cache (fst (size_pass s)))) (cache s) \<and>
         int (length (cache (fst (size_pass s)))) = maxSize (config s) \<and>
         (\<forall>r\<in>set (cache s) - set (cache (fst (size_pass s))). \<forall>q\<in>set (cache (fst (size_pass s))).
            created (snd r) \<le> created (snd q)) \<and>
         (sorted_wrt (<) (map (\<lambda>p. created (snd p)) (cache s)) \<and>
          int (length (cache s)) = maxSize (config s) + 1
            \<longrightarrow> cache (fst (size_pass s)) = tl (cache s))"
proof -
  let ?xs = "cache s"
  let ?f = "\<lambda>p. created (snd p)"
  let ?ys = "sort_key ?f ?xs"
  let ?m = "nat (int (length ?xs) - maxSize (config s))"
  let ?R = "take ?m ?ys"
  let ?after = "cache (fst (size_pass s))"
  have dx: "distinct ?xs"
    using assms(1) by (simp add: distinct_map)
  have dy: "distinct ?ys" using dx by simp
  have R_sub: "set ?R \<subseteq> set ?xs"
    by (metis set_take_subset set_sort)
  have "?after = filter (\<lambda>p. fst p \<notin> fst ` set ?R) ?xs"
    using assms(3) by (simp add: size_pass_def Let_def evict_loop_cache js_sort_by_created)
  then have after: "?after = filter (\<lambda>p. p \<notin> set ?R) ?xs"
    using key_filter_distinct [OF assms(1) R_sub] by simp
  have set_after: "set ?after = set (drop ?m ?ys)"
  proof -
    have "set ?xs = set ?R \<union> set (drop ?m ?ys)"
      by (metis append_take_drop_id set_append set_sort)
    moreover have "set ?R \<inter> set (drop ?m ?ys) = {}"
      using dy by (metis append_take_drop_id distinct_append)
    ultimately show ?thesis
      unfolding after by auto
  qed
  have len: "length ?after = length ?xs - ?m"
    unfolding after using length_filter_not_take [OF dy, of ?xs ?m] by simp
  have c1: "set ?after \<subseteq> set ?xs"
    unfolding after by auto
  have c2: "?after = filter (\<lambda>p. p \<in> set ?after) ?xs"
  proof -
    have "filter (\<lambda>p. p \<in> set ?after) ?xs = filter (\<lambda>p. p \<notin> set ?R) ?xs"
      by (rule filter_cong [OF refl]) (simp only: after, auto)
    then show ?thesis using after by simp
  qed
  have c3: "int (length ?after) = maxSize (config s)"
    using len assms(2,3) by simp
  have c4: "\<forall>r\<in>set ?xs - set ?after. \<forall>q\<in>set ?after. created (snd r) \<le> created (snd q)"
  proof (intro ballI)
    fix r q assume r: "r \<in> set ?xs - set ?after" and q: "q \<in> set ?after"
    from r have "r \<in> set ?R" unfolding after by auto
    moreover from q have "q \<in> set (drop ?m ?ys)" using set_after by simp
    moreover have "sorted (map ?f ?ys)" by simp
    ultimately have "?f r \<le> ?f q" by (rule take_le_drop [rotated])
    then show "created (snd r) \<le> created (snd q)" by simp
  qed
  have c5: "?after = tl ?xs"
    if inc: "sorted_wrt (<) (map ?f ?xs)" and one: "int (length ?xs) = maxSize (config s) + 1"
  proof -
    have "sorted (map ?f ?xs)"
      using inc by (metis strict_sorted_imp_sorted)
    then have ys: "?ys = ?xs" by (rule sort_key_id_if_sorted)
    from one have m: "?m = 1" by simp
    obtain x rest where xs: "?xs = x # rest"
      using one assms(2) by (cases ?xs) auto
    have "?after = filter (\<lambda>p. p \<notin> set (take 1 ?xs)) ?xs"
      using after ys m by simp
    also have "\<dots> = rest"
      using dx xs by (auto simp: filter_id_conv)
    finally show ?thesis using xs by simp
  qed
  from c1 c2 c3 c4 c5 show ?thesis by blast
qed

lemma unexpired_after_expire_loop:
  "distinct (map fst (cache s)) \<Longrightarrow>
   cache (fst (expire_loop now (cache s) (s, 0))) = unexpired now s"
  by (simp add: cache_after_expire_loop unexpired_def)

text \<open>
  C3. Take a store of distinct keys with \<open>maxSize \<ge> 0\<close> in which more than \<open>maxSize\<close>
  entries are not expired. The sweep keeps unexpired entries only, in their order;
  of the unexpired entries it removes exactly \<open>count - maxSize\<close>, and no removed one was
  created after one that is kept. When the unexpired entries are \<open>maxSize + 1\<close> in number
  and their creation times increase strictly, exactly the first (oldest) is removed.
\<close>

theorem sweep_evicts_oldest:
  assumes "distinct (map fst (cache s))"
    and "0 \<le> maxSize (config s)"
    and "maxSize (config s) < int (length (unexpired now s))"
  shows "set (cache (cleanup now s)) \<subseteq> set (unexpired now s) \<and>
         cache (cleanup now s)
           = filter (\<lambda>p. p \<in> set (cache (cleanup now s))) (unexpired now s) \<and>
         int (length (unexpired now s)) - int (length (cache (cleanup now s)))
           = int (length (unexpired now s)) - maxSize (config s) \<and>
         (\<forall>r\<in>set (unexpired now s) - set (cache (cleanup now s)).
            \<forall>q\<in>set (cache (cleanup now s)). created (snd r) \<le> created (snd q)) \<and>
         (sorted_wrt (<) (map (\<lambda>p. created (snd p)) (unexpired now s)) \<and>
          int (length (unexpired now s)) = maxSize (config s) + 1
            \<longrightarrow> cache (cleanup now s) = tl (unexpired now s))"
proof -
  let ?s1 = "fst (expire_loop now (cache s) (s, 0))"
  have c: "cache ?s1 = unexpired now s"
    using assms(1) by (rule unexpired_after_expire_loop)
  have d: "distinct (map fst (cache ?s1))"
    using assms(1) by (simp add: c unexpired_def distinct_map_filter)
  have m: "0 \<le> maxSize (config ?s1)" "maxSize (config ?s1) < int (length (cache ?s1))"
    using assms(2,3) by (simp_all add: c)
  from size_pass_oldest [OF d m] show ?thesis
    by (simp add: cache_cleanup [symmetric] c)
qed

lemma scenario_A_cache:
  "cache scenario_A =
     [(''a'', \<lparr>data = JNum 1, created = 1, lastAccessed = 1, expires = None\<rparr>),
      (''b'', \<lparr>data = JNum 2, created = 2, lastAccessed = 2, expires = None\<rparr>),
      (''c'', \<lparr>data = JNum 3, created = 3, lastAccessed = 3, expires = None\<rparr>)]"
  by (simp add: scenario_A_def set_cache_def fresh_def clear_timer_def map_get_def truthy_def
        Let_def)

lemma scenario_A_config: "maxSize (config scenario_A) = 2"
  by (simp add: scenario_A_def fresh_def default_config_def)

lemma scenario_A_unexpired: "unexpired 4 scenario_A = cache scenario_A"
  by (simp add: unexpired_def scenario_A_cache is_expired_def)

theorem sweep_evicts_oldest_witness:
  "distinct (map fst (cache scenario_A)) \<and>
   0 \<le> maxSize (config scenario_A) \<and>
   maxSize (config scenario_A) < int (length (unexpired 4 scenario_A)) \<and>
   sorted_wrt (<) (map (\<lambda>p. created (snd p)) (unexpired 4 scenario_A)) \<and>
   int (length (unexpired 4 scenario_A)) = maxSize (config scenario_A) + 1 \<and>
   cache (cleanup 4 scenario_A) = tl (unexpired 4 scenario_A) \<and>
   map fst (cache scenario_A) = [''a'', ''b'', ''c''] \<and>
   map fst (cache (cleanup 4 scenario_A)) = [''b'', ''c'']"
proof -
  have h1: "distinct (map fst (cache scenario_A))"
    by (simp add: scenario_A_cache)
  have h2: "0 \<le> maxSize (config scenario_A)"
    by (simp add: scenario_A_config)
  have h3: "maxSize (config scenario_A) < int (length (unexpired 4 scenario_A))"
    by (simp add: scenario_A_config scenario_A_unexpired scenario_A_cache)
  have h4: "sorted_wrt (<) (map (\<lambda>p. created (snd p)) (unexpired 4 scenario_A))"
    by (simp add: scenario_A_unexpired scenario_A_cache)
  have h5: "int (length (unexpired 4 scenario_A)) = maxSize (config scenario_A) + 1"
    by (simp add: scenario_A_config scenario_A_unexpired scenario_A_cache)
  from sweep_evicts_oldest [OF h1 h2 h3] h4 h5
  have r: "cache (cleanup 4 scenario_A) = tl (unexpired 4 scenario_A)" by blast
  then have "map fst (cache (cleanup 4 scenario_A)) = [''b'', ''c'']"
    by (simp add: scenario_A_unexpired scenario_A_cache)
  moreover have "map fst (cache scenario_A) = [''a'', ''b'', ''c'']"
    by (simp add: scenario_A_cache)
  ultimately show ?thesis
    using h1 h2 h3 h4 h5 r by simp
qed

theorem sweep_size_bound_witness:
  "0 < maxSize (config scenario_A) \<and>
   int (length (cache (snd (exec Sweep 4 scenario_A)))) \<le> maxSize (config scenario_A) \<and>
   int (length (cache (set_cache ''d'' (JNum 4) None 4 True scenario_A)))
     \<le> maxSize (config scenario_A) \<and>
   (0::int) < 1 \<and>
   int (length (cache (setMaxSize 1 4 scenario_A))) \<le> 1 \<and>
   getMaxSize (setMaxSize 1 4 scenario_A) = 1"
proof -
  have h: "0 < maxSize (config scenario_A)"
    by (simp add: scenario_A_config)
  from sweep_size_bound [of scenario_A 4 "''d''" "JNum 4" None 1] h show ?thesis
    by simp
qed

section \<open>Invariants of the two maps and the pending timeouts\<close>

lemma map_get_map_delete:
  "map_get (map_delete k m) k' = (if k' = k then None else map_get m k')"
  by (simp add: map_get_def map_of_map_delete)

lemma map_get_map_set:
  "map_get (map_set k v m) k' = (if k' = k then Some v else map_get m k')"
  by (simp add: map_get_def map_of_map_set)

lemma I1_remove_key: "I1 s \<Longrightarrow> I1 (remove_key k s)"
  by (auto simp: I1_def keys_map_delete)

lemma wf_clear_timer:
  assumes "well_formed s"
  shows "well_formed (clear_timer k s) \<and> (\<forall>u\<in>set (timeouts (clear_timer k s)). tkey u \<noteq> k)"
proof -
  have pend: "\<And>u. u \<in> set (timeouts (clear_timer k s)) \<Longrightarrow>
                 u \<in> set (timeouts s) \<and> tkey u \<noteq> k"
  proof -
    fix u assume u: "u \<in> set (timeouts (clear_timer k s))"
    then have in_s: "u \<in> set (timeouts s)"
      by (auto simp: timeouts_clear_timer split: option.splits)
    have "tkey u \<noteq> k"
    proof
      assume eq: "tkey u = k"
      with in_s assms have "map_get (timers s) k = Some u" by (auto simp: well_formed_def)
      with u show False by (simp add: timeouts_clear_timer)
    qed
    with in_s show "u \<in> set (timeouts s) \<and> tkey u \<noteq> k" by simp
  qed
  have "well_formed (clear_timer k s)"
    using assms pend
    by (auto simp: well_formed_def distinct_map_delete map_get_map_delete)
  with pend show ?thesis by blast
qed

lemma wf_cache_update:
  "well_formed s \<Longrightarrow> distinct (map fst m) \<Longrightarrow> well_formed (s\<lparr>cache := m\<rparr>)"
  by (simp add: well_formed_def)

lemma wf_remove_key: "well_formed s \<Longrightarrow> well_formed (remove_key k s)"
  unfolding remove_key_def
  by (intro wf_clear_timer [THEN conjunct1] wf_cache_update)
     (auto simp: well_formed_def distinct_map_delete)

lemma I1_expire_loop: "I1 s \<Longrightarrow> I1 (fst (expire_loop now xs (s, n)))"
  by (induction xs arbitrary: s n) (simp_all add: I1_remove_key)

lemma wf_expire_loop: "well_formed s \<Longrightarrow> well_formed (fst (expire_loop now xs (s, n)))"
  by (induction xs arbitrary: s n) (simp_all add: wf_remove_key)

lemma I1_evict_loop: "I1 s \<Longrightarrow> I1 (fst (evict_loop xs (s, n)))"
  by (induction xs arbitrary: s n) (simp_all add: I1_remove_key)

lemma wf_evict_loop: "well_formed s \<Longrightarrow> well_formed (fst (evict_loop xs (s, n)))"
  by (induction xs arbitrary: s n) (simp_all add: wf_remove_key)

lemma I1_log [simp]: "I1 (log l m d s) = I1 s"
  by (simp add: I1_def)

lemma wf_log [simp]: "well_formed (log l m d s) = well_formed s"
  by (simp add: well_formed_def)

lemma I1_size_pass: "I1 s \<Longrightarrow> I1 (fst (size_pass s))"
  by (simp add: size_pass_def Let_def I1_evict_loop)

lemma wf_size_pass: "well_formed s \<Longrightarrow> well_formed (fst (size_pass s))"
  by (simp add: size_pass_def Let_def wf_evict_loop)

lemma cleanup_as_passes:
  "cleanup now s = fst (size_pass (fst (expire_loop now (cache s) (s, 0)))) \<or>
   (\<exists>m d. cleanup now s
            = log ''debug'' m d (fst (size_pass (fst (expire_loop now (cache s) (s, 0))))))"
  by (auto simp: cleanup_def Let_def split: prod.splits)

lemma I1_cleanup: "I1 s \<Longrightarrow> I1 (cleanup now s)"
  using cleanup_as_passes [of now s] by (auto simp: I1_size_pass I1_expire_loop)

lemma wf_cleanup: "well_formed s \<Longrightarrow> well_formed (cleanup now s)"
  using cleanup_as_passes [of now s] by (auto simp: wf_size_pass wf_expire_loop)

lemma I1_get: "I1 s \<Longrightarrow> I1 (snd (get k now s))"
  by (auto simp: get_def I1_remove_key split: option.splits)
     (auto simp: I1_def keys_map_set)

lemma wf_get: "well_formed s \<Longrightarrow> well_formed (snd (get k now s))"
  by (auto simp: get_def wf_remove_key split: option.splits)
     (auto simp: well_formed_def distinct_map_set)

lemma I1_set_quiet: "I1 s \<Longrightarrow> I1 (set_cache k v ttl now False s)"
  by (auto simp: set_cache_def Let_def I1_def setTimeout_def keys_map_set keys_map_delete)

lemma wf_set_quiet:
  assumes "well_formed s"
  shows "well_formed (set_cache k v ttl now False s)"
proof -
  from wf_clear_timer [OF assms, of k]
  have w: "well_formed (clear_timer k s)" and p: "\<forall>u\<in>set (timeouts (clear_timer k s)). tkey u \<noteq> k"
    by simp_all
  show ?thesis
    using w p
    by (auto simp: set_cache_def Let_def setTimeout_def well_formed_def distinct_map_set
          distinct_map_delete map_get_map_set map_get_map_delete)
qed

lemma I1_set: "I1 s \<Longrightarrow> I1 (set_cache k v ttl now rnd s)"
  by (cases rnd) (simp_all add: set_cache_sweep I1_set_quiet I1_cleanup)

lemma wf_set: "well_formed s \<Longrightarrow> well_formed (set_cache k v ttl now rnd s)"
  by (cases rnd) (simp_all add: set_cache_sweep wf_set_quiet wf_cleanup)

lemma fold_clearTimeout:
  "fold clearTimeout ts s = s\<lparr>timeouts := filter (\<lambda>u. tid u \<notin> tid ` set ts) (timeouts s)\<rparr>"
proof (induction ts arbitrary: s)
  case Nil
  then show ?case by simp
next
  case (Cons t ts)
  have "filter (\<lambda>u. tid u \<notin> tid ` set ts) (filter (\<lambda>u. tid u \<noteq> tid t) (timeouts s))
          = filter (\<lambda>u. tid u \<notin> tid ` set (t # ts)) (timeouts s)"
    by (auto intro!: filter_cong)
  then show ?case
    by (simp add: Cons.IH [of "clearTimeout t s"]) (simp add: clearTimeout_def)
qed

lemma I1_clear: "I1 (clear s)"
  by (simp add: clear_def Let_def I1_def)

lemma pending_cleared:
  assumes "well_formed s"
  shows "filter (\<lambda>u. tid u \<notin> tid ` snd ` set (timers s)) (timeouts s) = []"
proof -
  have "\<And>u. u \<in> set (timeouts s) \<Longrightarrow> u \<in> snd ` set (timers s)"
  proof -
    fix u assume "u \<in> set (timeouts s)"
    with assms have "map_of (timers s) (tkey u) = Some u"
      by (simp add: well_formed_def map_get_def)
    then have "(tkey u, u) \<in> set (timers s)" by (rule map_of_SomeD)
    then show "u \<in> snd ` set (timers s)" by force
  qed
  then show ?thesis
    by (auto simp: filter_empty_conv)
qed

lemma wf_clear: "well_formed s \<Longrightarrow> well_formed (clear s)"
  by (simp add: clear_def Let_def fold_clearTimeout pending_cleared well_formed_def)

lemma I1_destroy: "I1 (destroy s)"
  by (simp add: destroy_def Let_def I1_def)

lemma wf_stopCleanupTimer: "well_formed (stopCleanupTimer s) = well_formed s"
  by (simp add: stopCleanupTimer_def well_formed_def split: option.splits)

lemma wf_destroy: "well_formed s \<Longrightarrow> well_formed (destroy s)"
proof -
  assume w: "well_formed s"
  have t: "timers (stopCleanupTimer s) = timers s" "timeouts (stopCleanupTimer s) = timeouts s"
    by (simp_all add: stopCleanupTimer_def split: option.splits)
  show ?thesis
    using pending_cleared [OF w]
    by (simp add: destroy_def Let_def fold_clearTimeout t well_formed_def)
qed

lemma I1_fire: "I1 s \<Longrightarrow> I1 (fire t now s)"
  by (auto simp: fire_def I1_def keys_map_delete)

lemma wf_fire:
  assumes "well_formed s"
  shows "well_formed (fire t now s)"
proof (cases "t \<in> set (timeouts s) \<and> due t \<le> now")
  case False
  then show ?thesis using assms by (auto simp: fire_def)
next
  case True
  have "tkey u \<noteq> tkey t" if "u \<in> set (timeouts s)" and "tid u \<noteq> tid t" for u
  proof
    assume "tkey u = tkey t"
    with that(1) True assms have "Some u = Some t"
      by (metis well_formed_def)
    with that(2) show False by simp
  qed
  then show ?thesis
    using assms True
    by (auto simp: fire_def well_formed_def distinct_map_delete map_get_map_delete)
qed

lemma I1_getOrSet: "I1 s \<Longrightarrow> I1 (snd (getOrSet k q ttl now now' rnd s))"
  by (auto simp: getOrSet_def Let_def I1_set split: prod.splits promise.splits sum.splits
        dest: I1_get [of s k now])

lemma wf_getOrSet: "well_formed s \<Longrightarrow> well_formed (snd (getOrSet k q ttl now now' rnd s))"
  by (auto simp: getOrSet_def Let_def wf_set split: prod.splits promise.splits sum.splits
        dest: wf_get [of s k now])

lemma I1_config_update [simp]: "I1 (s\<lparr>config := c\<rparr>) = I1 s"
  by (simp add: I1_def)

lemma wf_config_update [simp]: "well_formed (s\<lparr>config := c\<rparr>) = well_formed s"
  by (simp add: well_formed_def)

lemma I1_exec:
  assumes "I1 s"
  shows "I1 (snd (exec c now s))"
proof (cases c)
  case (Get k)
  then show ?thesis using I1_get [OF assms, of k now] by (auto split: prod.splits)
next
  case (Has k)
  then show ?thesis
    using I1_get [OF assms, of k now] by (auto simp: has_def split: prod.splits)
next
  case (GetOrSet k q ttl now' rnd)
  then show ?thesis
    using I1_getOrSet [OF assms, of k q ttl now now' rnd] by (auto split: prod.splits)
qed (use assms in \<open>simp_all add: I1_set del_def I1_remove_key I1_clear setMaxSize_def
      I1_cleanup setDefaultTTL_def I1_destroy I1_fire\<close>)

text \<open>
  C9. I1 is preserved by every call and event: \<open>get\<close>, \<open>set\<close>, \<open>del\<close>, \<open>has\<close>,
  \<open>keys\<close>, \<open>clear\<close>, \<open>getOrSet\<close>, \<open>setMaxSize\<close>, \<open>setDefaultTTL\<close>, \<open>destroy\<close>, the
  sweep and the firing of a timeout. So a key that loses its entry in a step has no
  handle in \<open>timers\<close> after that step. An entry counts as present as long as it is
  physically in the store.
\<close>

theorem I1_preserved:
  assumes "I1 s"
  shows "I1 (snd (exec c now s)) \<and>
         (\<forall>k. map_has (cache s) k \<and> \<not> map_has (cache (snd (exec c now s))) k
                \<longrightarrow> \<not> map_has (timers (snd (exec c now s))) k)"
  using I1_exec [OF assms, of c now] by (auto simp: I1_def map_has_def)

theorem I1_preserved_witness:
  "I1 (set_cache ''k'' (JNum 1) (Some 60) 0 False fresh) \<and>
   I1 (snd (exec (Fire \<lparr>tid = 0, tkey = ''k'', due = 60000\<rparr>) 60000
              (set_cache ''k'' (JNum 1) (Some 60) 0 False fresh))) \<and>
   map_has (cache (set_cache ''k'' (JNum 1) (Some 60) 0 False fresh)) ''k'' \<and>
   \<not> map_has (cache (snd (exec (Fire \<lparr>tid = 0, tkey = ''k'', due = 60000\<rparr>) 60000
              (set_cache ''k'' (JNum 1) (Some 60) 0 False fresh)))) ''k'' \<and>
   \<not> map_has (timers (snd (exec (Fire \<lparr>tid = 0, tkey = ''k'', due = 60000\<rparr>) 60000
              (set_cache ''k'' (JNum 1) (Some 60) 0 False fresh)))) ''k''"
proof -
  let ?s = "set_cache ''k'' (JNum 1) (Some 60) 0 False fresh"
  let ?t = "\<lparr>tid = 0, tkey = ''k'', due = 60000\<rparr>"
  have s: "?s = \<lparr>cache = [(''k'', \<lparr>data = JNum 1, created = 0, lastAccessed = 0,
                                   expires = Some 60000\<rparr>)],
                 timers = [(''k'', ?t)], config = default_config, cleanupTimer = Some 60000,
                 timeouts = [?t], next_tid = 1, sink = []\<rparr>"
    by (simp add: set_cache_def fresh_def clear_timer_def map_get_def truthy_def
          setTimeout_def node_delay_def Let_def)
  have h1: "I1 ?s"
    by (simp add: s I1_def)
  have h2: "map_has (cache ?s) ''k''"
    by (simp add: s map_has_def)
  have h3: "\<not> map_has (cache (snd (exec (Fire ?t) 60000 ?s))) ''k''"
    by (simp add: s fire_def map_has_def map_delete_def)
  from I1_preserved [OF h1, of "Fire ?t" 60000] h1 h2 h3 show ?thesis by blast
qed

lemma wf_preserved:
  assumes "well_formed s"
  shows "well_formed (snd (exec c now s))"
proof (cases c)
  case (Get k)
  then show ?thesis using wf_get [OF assms, of k now] by (auto split: prod.splits)
next
  case (Has k)
  then show ?thesis
    using wf_get [OF assms, of k now] by (auto simp: has_def split: prod.splits)
next
  case (GetOrSet k q ttl now' rnd)
  then show ?thesis
    using wf_getOrSet [OF assms, of k q ttl now now' rnd] by (auto split: prod.splits)
qed (use assms in \<open>simp_all add: wf_set del_def wf_remove_key wf_clear setMaxSize_def
      wf_cleanup setDefaultTTL_def wf_destroy wf_fire\<close>)

lemma CacheService_I1_wf: "CacheService opts = Inr s \<Longrightarrow> I1 s \<and> well_formed s"
  by (auto simp: CacheService_def Let_def startCleanupTimer_def I1_def well_formed_def
        split: option.splits if_splits)

lemma CacheService_fresh:
  "CacheService \<lparr>opt_defaultTTL = None, opt_maxSize = None, opt_enableLogging = None,
                  opt_logger = None, opt_cleanupInterval = None\<rparr> = Inr fresh"
  by (simp add: CacheService_def Let_def startCleanupTimer_def merge_config_def
        default_config_def fresh_def node_delay_def)

lemma I1_run: "I1 s \<Longrightarrow> I1 (run evs s)"
  unfolding run_def
  by (induction evs arbitrary: s) (simp_all add: step_def I1_exec)

lemma wf_run: "well_formed s \<Longrightarrow> well_formed (run evs s)"
  unfolding run_def
  by (induction evs arbitrary: s) (simp_all add: step_def wf_preserved)

text \<open>Every state reached from a constructed instance satisfies both invariants.\<close>

lemma reachable_invariants:
  "CacheService opts = Inr s \<Longrightarrow> I1 (run evs s) \<and> well_formed (run evs s)"
  using CacheService_I1_wf [of opts s] by (simp add: I1_run wf_run)

section \<open>Expiry of an inserted key\<close>

lemma map_get_key_filter:
  "map_get (filter (\<lambda>p. fst p \<notin> K) m) k = (if k \<in> K then None else map_get m k)"
  by (induction m) (auto simp: map_get_def)

lemma length_key_filter: "length (filter P m) \<le> length m"
  by simp

lemma cache_size_pass:
  "\<exists>K. cache (fst (size_pass s)) = filter (\<lambda>p. fst p \<notin> K) (cache s) \<and>
       timers (fst (size_pass s)) = filter (\<lambda>p. fst p \<notin> K) (timers s)"
proof (cases "int (length (cache s)) > maxSize (config s)")
  case True
  then show ?thesis
    by (auto simp: size_pass_def Let_def evict_loop_cache evict_loop_timers)
next
  case False
  then have "cache (fst (size_pass s)) = filter (\<lambda>p. fst p \<notin> {}) (cache s) \<and>
             timers (fst (size_pass s)) = filter (\<lambda>p. fst p \<notin> {}) (timers s)"
    by (simp add: size_pass_def)
  then show ?thesis by blast
qed

lemma cleanup_keeps_or_drops:
  "map_get (cache (cleanup now s)) k = None \<or>
   map_get (cache (cleanup now s)) k = map_get (cache s) k"
proof -
  let ?s1 = "fst (expire_loop now (cache s) (s, 0))"
  obtain K where "cache (cleanup now s) = filter (\<lambda>p. fst p \<notin> K) (cache ?s1)"
    using cache_size_pass [of ?s1] by (auto simp: cache_cleanup)
  then have "map_get (cache (cleanup now s)) k = (if k \<in> K then None else map_get (cache ?s1) k)"
    by (simp only: map_get_key_filter)
  moreover have "map_get (cache ?s1) k = None \<or> map_get (cache ?s1) k = map_get (cache s) k"
    by (simp only: expire_loop_cache map_get_key_filter) simp
  ultimately show ?thesis by auto
qed

lemma fire_keeps_or_drops:
  "map_get (cache (fire t now s)) k = None \<or>
   map_get (cache (fire t now s)) k = map_get (cache s) k"
  by (simp add: fire_def map_get_map_delete)

lemma cache_set_quiet:
  "cache (set_cache k v ttl now False s) =
     map_set k \<lparr>data = v, created = now, lastAccessed = now,
                expires = (if 0 < (case ttl of None \<Rightarrow> defaultTTL (config s) | Some t \<Rightarrow> t)
                           then Some (now + (case ttl of None \<Rightarrow> defaultTTL (config s)
                                                        | Some t \<Rightarrow> t) * 1000)
                           else None)\<rparr> (cache s)"
  by (simp add: set_cache_def Let_def setTimeout_def split: prod.splits)

lemma sog_cache_eq:
  "map_get (cache s') k = None \<or> map_get (cache s') k = map_get (cache s) k \<Longrightarrow>
   stored_or_gone k d x s \<Longrightarrow> stored_or_gone k d x s'"
  by (auto simp: stored_or_gone_def)

lemma sog_cleanup: "stored_or_gone k d x s \<Longrightarrow> stored_or_gone k d x (cleanup now s)"
  using cleanup_keeps_or_drops [of now s k] by (rule sog_cache_eq)

lemma sog_fire: "stored_or_gone k d x s \<Longrightarrow> stored_or_gone k d x (fire t now s)"
  using fire_keeps_or_drops [of t now s k] by (rule sog_cache_eq)

lemma sog_remove_key: "stored_or_gone k d x s \<Longrightarrow> stored_or_gone k d x (remove_key k' s)"
  by (rule sog_cache_eq [rotated]) (auto simp: map_get_map_delete)

lemma sog_get: "stored_or_gone k d x s \<Longrightarrow> stored_or_gone k d x (snd (get k' now s))"
  by (auto simp: get_def sog_remove_key split: option.splits)
     (auto simp: stored_or_gone_def map_get_map_set split: option.splits)

lemma sog_log [simp]: "stored_or_gone k d x (log l m md s) = stored_or_gone k d x s"
  by (simp add: stored_or_gone_def)

lemma sog_set_other:
  "k' \<noteq> k \<Longrightarrow> stored_or_gone k d x s \<Longrightarrow> stored_or_gone k d x (set_cache k' v ttl now rnd s)"
proof -
  assume ne: "k' \<noteq> k" and sog: "stored_or_gone k d x s"
  have q: "stored_or_gone k d x (set_cache k' v ttl now False s)"
    using ne sog by (simp add: stored_or_gone_def cache_set_quiet map_get_map_set)
  show ?thesis
    by (cases rnd) (simp_all add: q set_cache_sweep sog_cleanup)
qed

lemma sog_getOrSet:
  "k' \<noteq> k \<Longrightarrow> stored_or_gone k d x s \<Longrightarrow>
   stored_or_gone k d x (snd (getOrSet k' q ttl now now' rnd s))"
  by (auto simp: getOrSet_def Let_def sog_set_other
        split: prod.splits promise.splits sum.splits dest: sog_get [of k d x s k' now])

lemma sog_exec:
  assumes "\<not> writes_key k c" and "stored_or_gone k d x s"
  shows "stored_or_gone k d x (snd (exec c now s))"
proof (cases c)
  case (Get k')
  then show ?thesis using sog_get [OF assms(2), of k' now] by (auto split: prod.splits)
next
  case (Has k')
  then show ?thesis
    using sog_get [OF assms(2), of k' now] by (auto simp: has_def split: prod.splits)
next
  case (GetOrSet k' q ttl now' rnd)
  then show ?thesis
    using assms sog_getOrSet [of k' k d x s q ttl now now' rnd] by (auto split: prod.splits)
next
  case (SetKey k' v ttl rnd)
  then show ?thesis using assms by (simp add: sog_set_other)
next
  case (SetMaxSize n)
  have "stored_or_gone k d x (s\<lparr>config := (config s)\<lparr>maxSize := n\<rparr>\<rparr>)"
    using assms(2) by (simp add: stored_or_gone_def)
  then show ?thesis using SetMaxSize by (simp add: setMaxSize_def sog_cleanup)
next
  case (Del k')
  then show ?thesis using assms by (simp add: del_def sog_remove_key)
next
  case Sweep
  then show ?thesis using assms by (simp add: sog_cleanup)
next
  case (Fire t)
  then show ?thesis using assms by (simp add: sog_fire)
next
  case Keys
  then show ?thesis using assms by simp
next
  case Clear
  then show ?thesis by (simp add: clear_def Let_def) (simp add: stored_or_gone_def map_get_def)
next
  case Destroy
  then show ?thesis by (simp add: destroy_def Let_def) (simp add: stored_or_gone_def map_get_def)
next
  case (SetDefaultTTL t)
  then show ?thesis using assms by (simp add: setDefaultTTL_def stored_or_gone_def)
qed

lemma sog_run:
  assumes "\<forall>ev\<in>set evs. \<not> writes_key k (fst ev)" and "stored_or_gone k d x s"
  shows "stored_or_gone k d x (run evs s)"
  using assms
proof (induction evs arbitrary: s)
  case Nil
  then show ?case by (simp add: run_def)
next
  case (Cons e evs)
  have r: "run (e # evs) s = run evs (snd (exec (fst e) (snd e) s))"
    by (simp add: run_def step_def)
  show ?case
    unfolding r using Cons.prems by (intro Cons.IH sog_exec) simp_all
qed

lemma sog_after_set:
  "stored_or_gone k v
     (if 0 < (case ttl of None \<Rightarrow> defaultTTL (config s) | Some t \<Rightarrow> t)
      then Some (now + (case ttl of None \<Rightarrow> defaultTTL (config s) | Some t \<Rightarrow> t) * 1000)
      else None)
     (set_cache k v ttl now rnd s)"
proof -
  have q: "stored_or_gone k v
     (if 0 < (case ttl of None \<Rightarrow> defaultTTL (config s) | Some t \<Rightarrow> t)
      then Some (now + (case ttl of None \<Rightarrow> defaultTTL (config s) | Some t \<Rightarrow> t) * 1000)
      else None)
     (set_cache k v ttl now False s)"
    by (simp add: stored_or_gone_def cache_set_quiet map_get_map_set)
  show ?thesis
    by (cases rnd) (simp_all only: q set_cache_sweep sog_cleanup)
qed

lemma get_absent: "map_get (cache s) k = None \<Longrightarrow> get k now s = (JNull, s)"
  by (simp add: get_def)

lemma get_expired:
  "map_get (cache s) k = Some e \<Longrightarrow> is_expired e now \<Longrightarrow> fst (get k now s) = JNull"
  by (simp add: get_def)

lemma get_valid:
  "map_get (cache s) k = Some e \<Longrightarrow> \<not> is_expired e now \<Longrightarrow> fst (get k now s) = data e"
  by (simp add: get_def)

lemma get_sog_expired:
  assumes "stored_or_gone k d (Some y) s" and "y \<noteq> 0" and "y < now"
  shows "fst (get k now s) = JNull"
  using assms by (auto simp: stored_or_gone_def get_def is_expired_def split: option.splits)

lemma read_after_expiry:
  assumes "0 < t" and "0 \<le> t0" and "\<forall>ev\<in>set evs. \<not> writes_key k (fst ev)"
    and "t0 + t * 1000 < t1"
  shows "fst (get k t1 (run evs (set_cache k v (Some t) t0 rnd s))) = JNull"
proof -
  have "stored_or_gone k v (Some (t0 + t * 1000)) (set_cache k v (Some t) t0 rnd s)"
    using sog_after_set [where k = k and v = v and ttl = "Some t" and now = t0 and rnd = rnd
        and s = s] assms(1) by simp
  then have "stored_or_gone k v (Some (t0 + t * 1000))
               (run evs (set_cache k v (Some t) t0 rnd s))"
    by (rule sog_run [OF assms(3)])
  then show ?thesis
    using assms(1,2,4) by (intro get_sog_expired) auto
qed

subsection \<open>Retention up to the expiry instant\<close>

text \<open>
  The entry of a key that is neither rewritten nor removed is carried through the
  calls and events that follow its insertion: reads, insertions of other keys, timeouts
  and sweeps, a sweep being asked only not to pick the key among the oldest entries
  that it evicts by size.
\<close>

lemma not_expired_valid: "valid_at (expires e) now \<Longrightarrow> \<not> is_expired e now"
  by (auto simp: valid_at_def is_expired_def split: option.splits)

lemma entry_of_key:
  assumes "distinct (map fst m)" and "p \<in> set m" and "map_get m (fst p) = Some e"
  shows "snd p = e"
proof -
  have "map_of m (fst p) = Some (snd p)"
    using assms(1,2) by (intro map_of_is_SomeI) simp_all
  with assms(3) show ?thesis by (simp add: map_get_def)
qed

lemma kept_remove_key:
  assumes "kept k d x s" and "k' \<noteq> k"
  shows "kept k d x (remove_key k' s)"
  using assms by (simp add: kept_def wf_remove_key map_get_map_delete)

lemma kept_log [simp]: "kept k d x (log l m md s) = kept k d x s"
  by (simp add: kept_def)

lemma kept_config [simp]: "kept k d x (s\<lparr>config := c\<rparr>) = kept k d x s"
  by (simp add: kept_def)

text \<open>What a sweep leaves, in a store of distinct keys.\<close>

lemma size_pass_evicted:
  "cache (fst (size_pass s))
     = filter (\<lambda>p. fst p \<notin> set (if int (length (cache s)) > maxSize (config s)
         then map fst (take (nat (int (length (cache s)) - maxSize (config s)))
                         (js_sort by_created (cache s)))
         else [])) (cache s) \<and>
   timers (fst (size_pass s))
     = filter (\<lambda>p. fst p \<notin> set (if int (length (cache s)) > maxSize (config s)
         then map fst (take (nat (int (length (cache s)) - maxSize (config s)))
                         (js_sort by_created (cache s)))
         else [])) (timers s)"
  by (simp add: size_pass_def Let_def evict_loop_cache evict_loop_timers)

lemma cleanup_evicted:
  assumes "distinct (map fst (cache s))"
  shows "cache (cleanup now s)
           = filter (\<lambda>p. fst p \<notin> set (evicted_keys now s)) (unexpired now s)"
    and "timers (cleanup now s)
           = filter (\<lambda>p. fst p \<notin> set (evicted_keys now s))
               (filter (\<lambda>p. fst p \<notin> fst ` {q \<in> set (cache s). is_expired (snd q) now})
                  (timers s))"
proof -
  let ?s1 = "fst (expire_loop now (cache s) (s, 0))"
  have c: "cache ?s1 = unexpired now s"
    using assms by (rule unexpired_after_expire_loop)
  have e: "(if int (length (cache ?s1)) > maxSize (config ?s1)
         then map fst (take (nat (int (length (cache ?s1)) - maxSize (config ?s1)))
                         (js_sort by_created (cache ?s1)))
         else []) = evicted_keys now s"
    by (simp add: c evicted_keys_def)
  show "cache (cleanup now s)
           = filter (\<lambda>p. fst p \<notin> set (evicted_keys now s)) (unexpired now s)"
    using size_pass_evicted [of ?s1] unfolding e by (simp add: cache_cleanup c)
  show "timers (cleanup now s)
           = filter (\<lambda>p. fst p \<notin> set (evicted_keys now s))
               (filter (\<lambda>p. fst p \<notin> fst ` {q \<in> set (cache s). is_expired (snd q) now})
                  (timers s))"
    using size_pass_evicted [of ?s1] unfolding e
    by (simp only: timers_cleanup expire_loop_timers)
qed

lemma within_bound_no_eviction:
  "int (length (cache s)) \<le> maxSize (config s) \<Longrightarrow> evicted_keys now s = []"
proof -
  assume "int (length (cache s)) \<le> maxSize (config s)"
  moreover have "length (unexpired now s) \<le> length (cache s)"
    by (simp add: unexpired_def)
  ultimately show ?thesis by (simp add: evicted_keys_def)
qed

lemma kept_cleanup:
  assumes "kept k d x s" and "valid_at x now" and "k \<notin> set (evicted_keys now s)"
  shows "kept k d x (cleanup now s)"
proof -
  have dist: "distinct (map fst (cache s))"
    using assms(1) by (simp add: kept_def well_formed_def)
  from assms(1) obtain e where e: "map_get (cache s) k = Some e" "data e = d" "expires e = x"
    by (auto simp: kept_def split: option.splits)
  have notexp: "k \<notin> fst ` {q \<in> set (cache s). is_expired (snd q) now}"
  proof
    assume "k \<in> fst ` {q \<in> set (cache s). is_expired (snd q) now}"
    then obtain p where p: "p \<in> set (cache s)" "is_expired (snd p) now" "fst p = k"
      by auto
    then have "snd p = e"
      using dist e(1) by (intro entry_of_key) simp_all
    with p(2) e(3) assms(2) show False
      using not_expired_valid [of e now] by simp
  qed
  have c: "map_get (cache (cleanup now s)) k = map_get (cache s) k"
  proof -
    have "cache (cleanup now s)
            = filter (\<lambda>p. fst p \<notin> set (evicted_keys now s))
                (filter (\<lambda>p. fst p \<notin> fst ` {q \<in> set (cache s). is_expired (snd q) now})
                   (cache s))"
      using cleanup_evicted(1) [OF dist, of now] dist
      by (simp add: unexpired_def expired_filter_distinct)
    then show ?thesis
      using assms(3) notexp by (simp only: map_get_key_filter) simp
  qed
  have t: "map_get (timers (cleanup now s)) k = map_get (timers s) k"
    using assms(3) notexp
    by (simp only: cleanup_evicted(2) [OF dist] map_get_key_filter) simp
  have "well_formed (cleanup now s)"
    using assms(1) by (simp add: kept_def wf_cleanup)
  with c t assms(1) show ?thesis by (simp add: kept_def)
qed

lemma kept_fire:
  assumes "kept k d x s"
    and "tkey u \<noteq> k \<or> (case x of None \<Rightarrow> True | Some y \<Rightarrow> now < y)"
  shows "kept k d x (fire u now s)"
proof (cases "u \<in> set (timeouts s) \<and> due u \<le> now")
  case False
  then show ?thesis using assms(1) by (auto simp: fire_def)
next
  case True
  have ne: "tkey u \<noteq> k"
  proof
    assume eq: "tkey u = k"
    from True assms(1) have "map_get (timers s) (tkey u) = Some u"
      by (simp add: kept_def well_formed_def)
    with eq assms(1) have "case x of None \<Rightarrow> False | Some y \<Rightarrow> y \<le> due u"
      by (simp add: kept_def)
    with assms(2) eq True show False
      by (auto split: option.splits)
  qed
  have "well_formed (fire u now s)"
    using assms(1) by (simp add: kept_def wf_fire)
  then show ?thesis
    using assms(1) True ne by (simp add: kept_def fire_def map_get_map_delete)
qed

lemma kept_get:
  assumes "kept k d x s" and "k' \<noteq> k \<or> valid_at x now"
  shows "kept k d x (snd (get k' now s))"
proof (cases "map_get (cache s) k'")
  case None
  then show ?thesis using assms(1) by (simp add: get_def)
next
  case (Some e')
  show ?thesis
  proof (cases "is_expired e' now")
    case True
    have "k' \<noteq> k"
    proof
      assume "k' = k"
      with Some assms(1) have "expires e' = x" by (simp add: kept_def)
      with assms(2) \<open>k' = k\<close> True show False
        using not_expired_valid [of e' now] by simp
    qed
    with Some True assms(1) show ?thesis
      by (simp add: get_def kept_remove_key)
  next
    case False
    with Some assms(1) show ?thesis
      by (auto simp: get_def kept_def well_formed_def distinct_map_set map_get_map_set)
  qed
qed

lemma timers_set_quiet_other:
  "k' \<noteq> k \<Longrightarrow> map_get (timers (set_cache k' v ttl now False s)) k = map_get (timers s) k"
  by (simp add: set_cache_def Let_def setTimeout_def map_get_map_set map_get_map_delete
        split: prod.splits)

lemma kept_set_other:
  assumes "kept k d x s" and "k' \<noteq> k"
  shows "kept k d x (set_cache k' v ttl now False s)"
  using assms
  by (simp add: kept_def wf_set_quiet cache_set_quiet map_get_map_set timers_set_quiet_other)

lemma sweep_of_exec:
  "sweep_of c now s = Some (t, u) \<Longrightarrow> snd (exec c now s) = cleanup t u"
  by (cases c)
     (auto simp: set_cache_sweep setMaxSize_def getOrSet_def Let_def
           split: if_splits promise.splits prod.splits)

lemma no_sweep_exec:
  assumes "sweep_of c now s = None" and "kept k d x s"
    and "\<not> writes_key k c" and "\<not> deletes_key k c"
    and "reads_key k c \<longrightarrow> valid_at x now" and "timer_waits k x c now"
  shows "kept k d x (snd (exec c now s))"
proof (cases c)
  case (Get k')
  then show ?thesis
    using assms kept_get [of k d x s k' now] by (auto split: prod.splits)
next
  case (Has k')
  then show ?thesis
    using assms kept_get [of k d x s k' now] by (auto simp: has_def split: prod.splits)
next
  case (SetKey k' v ttl rnd)
  then show ?thesis
    using assms by (auto simp: kept_set_other split: if_splits)
next
  case (Del k')
  then show ?thesis using assms by (simp add: del_def kept_remove_key)
next
  case (GetOrSet k' q ttl now' rnd)
  with assms have ne: "k' \<noteq> k" by simp
  have g: "kept k d x (snd (get k' now s))"
    using assms(2) ne kept_get [of k d x s k' now] by blast
  have "config (snd (get k' now s)) = config s"
    by (auto simp: get_def split: option.splits)
  show ?thesis
  proof (cases "fst (get k' now s) = JNull")
    case False
    with GetOrSet g show ?thesis
      by (auto simp: getOrSet_def Let_def split: prod.splits)
  next
    case True
    show ?thesis
    proof (cases q)
      case (Rejected err)
      with GetOrSet True g show ?thesis
        by (auto simp: getOrSet_def Let_def split: prod.splits sum.splits)
    next
      case (Fulfilled v)
      with GetOrSet True assms(1) have "\<not> rnd" by (auto split: if_splits)
      with GetOrSet True Fulfilled g ne show ?thesis
        by (auto simp: getOrSet_def Let_def kept_set_other split: prod.splits)
    qed
  qed
next
  case (Fire u)
  then show ?thesis using assms by (simp add: kept_fire)
next
  case (SetDefaultTTL t)
  then show ?thesis using assms by (simp add: setDefaultTTL_def)
qed (use assms in simp_all)

lemma pre_sweep_kept:
  assumes "sweep_of c now s = Some (t, u)" and "kept k d x s"
    and "\<not> writes_key k c" and "reads_key k c \<longrightarrow> valid_at x now"
  shows "kept k d x u"
proof (cases c)
  case (SetKey k' v ttl rnd)
  then show ?thesis
    using assms by (auto simp: kept_set_other split: if_splits)
next
  case (GetOrSet k' q ttl now' rnd)
  with assms have ne: "k' \<noteq> k" by simp
  have g: "kept k d x (snd (get k' now s))"
    using assms(2) ne kept_get [of k d x s k' now] by blast
  from GetOrSet assms(1) g ne show ?thesis
    by (auto simp: kept_set_other split: if_splits promise.splits)
qed (use assms in auto)

lemma kept_exec:
  assumes "kept k d x s" and "calm k x (c, now) s"
  shows "kept k d x (snd (exec c now s))"
proof (cases "sweep_of c now s")
  case None
  with assms show ?thesis
    by (intro no_sweep_exec) (simp_all add: calm_def)
next
  case (Some tu)
  obtain t u where tu: "tu = (t, u)" by (cases tu)
  with Some have sw: "sweep_of c now s = Some (t, u)" by simp
  have "kept k d x u"
    using sw assms by (intro pre_sweep_kept [OF sw]) (simp_all add: calm_def)
  moreover have "valid_at x t" "k \<notin> set (evicted_keys t u)"
    using assms(2) sw by (simp_all add: calm_def)
  ultimately have "kept k d x (cleanup t u)" by (rule kept_cleanup)
  then show ?thesis by (simp add: sweep_of_exec [OF sw])
qed

lemma kept_run:
  assumes "kept k d x s" and "calm_run k x evs s"
  shows "kept k d x (run evs s)"
  using assms
proof (induction evs arbitrary: s)
  case Nil
  then show ?case by (simp add: run_def)
next
  case (Cons e evs)
  have r: "run (e # evs) s = run evs (step e s)"
    by (simp add: run_def)
  have "kept k d x (step e s)"
    using Cons.prems kept_exec [of k d x s "fst e" "snd e"] by (simp add: step_def)
  then show ?case
    unfolding r using Cons.prems by (intro Cons.IH) simp_all
qed

lemma get_kept:
  assumes "kept k d x s" and "valid_at x now"
  shows "fst (get k now s) = d"
proof -
  from assms(1) obtain e where e: "map_get (cache s) k = Some e" "data e = d" "expires e = x"
    by (auto simp: kept_def split: option.splits)
  with assms(2) have "\<not> is_expired e now"
    using not_expired_valid [of e now] by simp
  with e show ?thesis by (simp add: get_valid)
qed

lemma timers_set_quiet:
  "map_get (timers (set_cache k v ttl now False s)) k =
     (let t = (case ttl of None \<Rightarrow> defaultTTL (config s) | Some t \<Rightarrow> t)
      in if 0 < t \<and> now + t * 1000 \<noteq> 0
         then Some \<lparr>tid = next_tid s, tkey = k, due = now + node_delay (t * 1000)\<rparr>
         else None)"
  by (simp add: set_cache_def Let_def setTimeout_def truthy_def map_get_map_set
        map_get_map_delete clear_timer_def clearTimeout_def split: option.splits)

lemma kept_after_set:
  assumes "well_formed s"
    and "rnd \<longrightarrow> k \<notin> set (evicted_keys t0 (set_cache k v ttl t0 False s))"
    and "(case ttl of None \<Rightarrow> defaultTTL (config s) | Some t \<Rightarrow> t) * 1000 \<le> 2147483647"
  shows "kept k v
           (if 0 < (case ttl of None \<Rightarrow> defaultTTL (config s) | Some t \<Rightarrow> t)
            then Some (t0 + (case ttl of None \<Rightarrow> defaultTTL (config s) | Some t \<Rightarrow> t) * 1000)
            else None)
           (set_cache k v ttl t0 rnd s)"
proof -
  let ?t = "case ttl of None \<Rightarrow> defaultTTL (config s) | Some t \<Rightarrow> t"
  let ?x = "if 0 < ?t then Some (t0 + ?t * 1000) else None"
  let ?q = "set_cache k v ttl t0 False s"
  have "0 < ?t \<Longrightarrow> node_delay (?t * 1000) = ?t * 1000"
    using assms(3) by (simp add: node_delay_def)
  then have q: "kept k v ?x ?q"
    using assms(1)
    by (simp add: kept_def wf_set_quiet cache_set_quiet map_get_map_set timers_set_quiet Let_def)
  show ?thesis
  proof (cases rnd)
    case False
    with q show ?thesis by simp
  next
    case True
    have "valid_at ?x t0" by (simp add: valid_at_def)
    with q have "kept k v ?x (cleanup t0 ?q)"
      using assms(2) True by (intro kept_cleanup) simp_all
    with True show ?thesis by (simp only: set_cache_sweep)
  qed
qed

text \<open>
  C1, as amended. Let \<open>k\<close> be inserted by \<open>set(k, v, t)\<close> with \<open>t > 0\<close> at the clock
  reading \<open>t0 \<ge> 0\<close>, and let any calls and events follow that do not write \<open>k\<close> again.
  A read of \<open>k\<close> strictly after \<open>t0 + t * 1000\<close> returns \<open>null\<close>. A read at or before
  \<open>t0 + t * 1000\<close> returns \<open>v\<close>, provided that \<open>t * 1000\<close> fits the timer facility, the
  store was well formed, \<open>k\<close> was not deleted or cleared, no sweep (the one of the
  insertion included) picked \<open>k\<close> among the oldest entries that it evicts by size, the
  timeout of \<open>k\<close> has not fired, and the reads of \<open>k\<close> and the sweeps in between were no
  later than that instant. Insertions of other keys, with or without a sweep, and
  changes of \<open>maxSize\<close> may occur in between.
\<close>

theorem expiry_of_set:
  assumes "0 < t" and "0 \<le> t0" and "\<forall>ev\<in>set evs. \<not> writes_key k (fst ev)"
  shows "(t0 + t * 1000 < t1 \<longrightarrow>
            fst (get k t1 (run evs (set_cache k v (Some t) t0 rnd s))) = JNull) \<and>
         (t1 \<le> t0 + t * 1000 \<and> t * 1000 \<le> 2147483647 \<and> well_formed s \<and>
          (rnd \<longrightarrow> k \<notin> set (evicted_keys t0 (set_cache k v (Some t) t0 False s))) \<and>
          calm_run k (Some (t0 + t * 1000)) evs (set_cache k v (Some t) t0 rnd s) \<longrightarrow>
            fst (get k t1 (run evs (set_cache k v (Some t) t0 rnd s))) = v)"
proof (intro conjI impI)
  assume "t0 + t * 1000 < t1"
  with assms show "fst (get k t1 (run evs (set_cache k v (Some t) t0 rnd s))) = JNull"
    by (intro read_after_expiry)
next
  assume h: "t1 \<le> t0 + t * 1000 \<and> t * 1000 \<le> 2147483647 \<and> well_formed s \<and>
          (rnd \<longrightarrow> k \<notin> set (evicted_keys t0 (set_cache k v (Some t) t0 False s))) \<and>
          calm_run k (Some (t0 + t * 1000)) evs (set_cache k v (Some t) t0 rnd s)"
  then have "kept k v (Some (t0 + t * 1000)) (set_cache k v (Some t) t0 rnd s)"
    using kept_after_set [where k = k and v = v and ttl = "Some t" and ?t0.0 = t0 and rnd = rnd
        and s = s] assms(1) by simp
  with h have "kept k v (Some (t0 + t * 1000)) (run evs (set_cache k v (Some t) t0 rnd s))"
    by (intro kept_run) simp_all
  moreover have "valid_at (Some (t0 + t * 1000)) t1"
    using h by (simp add: valid_at_def)
  ultimately show "fst (get k t1 (run evs (set_cache k v (Some t) t0 rnd s))) = v"
    by (rule get_kept)
qed

lemma well_formed_fresh: "well_formed fresh"
  by (simp add: well_formed_def fresh_def)

lemma well_formed_one_old: "well_formed one_old"
  unfolding one_old_def
  by (intro wf_set_quiet) (simp add: well_formed_def fresh_def)

theorem expiry_of_set_witness:
  "(0::int) < 1 \<and> (0::int) \<le> 1000 \<and>
   list_all (\<lambda>ev. \<not> writes_key ''x'' (fst ev))
     [(SetKey ''y'' (JNum 7) (Some 5) True, 1200), (Sweep, 1500), (Get ''x'', 1600)] \<and>
   (1000::int) + 1 * 1000 < 2001 \<and>
   fst (get ''x'' 2001
         (run [(SetKey ''y'' (JNum 7) (Some 5) True, 1200), (Sweep, 1500), (Get ''x'', 1600)]
            (set_cache ''x'' (JNum 42) (Some 1) 1000 True one_old))) = JNull \<and>
   (2000::int) \<le> 1000 + 1 * 1000 \<and> (1::int) * 1000 \<le> 2147483647 \<and> well_formed one_old \<and>
   ''x'' \<notin> set (evicted_keys 1000 (set_cache ''x'' (JNum 42) (Some 1) 1000 False one_old)) \<and>
   calm_run ''x'' (Some (1000 + 1 * 1000))
     [(SetKey ''y'' (JNum 7) (Some 5) True, 1200), (Sweep, 1500), (Get ''x'', 1600)]
     (set_cache ''x'' (JNum 42) (Some 1) 1000 True one_old) \<and>
   map fst (cache
     (run [(SetKey ''y'' (JNum 7) (Some 5) True, 1200), (Sweep, 1500), (Get ''x'', 1600)]
        (set_cache ''x'' (JNum 42) (Some 1) 1000 True one_old))) = [''x'', ''y''] \<and>
   fst (get ''x'' 2000
         (run [(SetKey ''y'' (JNum 7) (Some 5) True, 1200), (Sweep, 1500), (Get ''x'', 1600)]
            (set_cache ''x'' (JNum 42) (Some 1) 1000 True one_old))) = JNum 42"
proof -
  let ?evs = "[(SetKey ''y'' (JNum 7) (Some 5) True, 1200), (Sweep, 1500), (Get ''x'', 1600)]
                :: (op \<times> int) list"
  let ?s = "set_cache ''x'' (JNum 42) (Some 1) 1000 True one_old"
  have h1: "\<forall>ev\<in>set ?evs. \<not> writes_key ''x'' (fst ev)" by simp
  have h2: "''x'' \<notin> set (evicted_keys 1000
              (set_cache ''x'' (JNum 42) (Some 1) 1000 False one_old))"
    by code_simp
  have h3: "calm_run ''x'' (Some (1000 + 1 * 1000)) ?evs ?s"
    by code_simp
  have h4: "map fst (cache (run ?evs ?s)) = [''x'', ''y'']"
    by code_simp
  have a: "fst (get ''x'' 2001 (run ?evs ?s)) = JNull"
    using expiry_of_set [of 1 1000 ?evs "''x''" 2001 "JNum 42" True one_old] h1 by simp
  have b: "fst (get ''x'' 2000 (run ?evs ?s)) = JNum 42"
    using expiry_of_set [of 1 1000 ?evs "''x''" 2000 "JNum 42" True one_old] h1 h2 h3
      well_formed_one_old by simp
  from a b h2 h3 h4 well_formed_one_old show ?thesis
    by simp
qed

theorem expiry_of_set_counterexample:
  "fst (get ''x'' 2000 (set_cache ''x'' (JNum 42) (Some 1) 1000 False fresh)) = JNum 42 \<and>
   fst (get ''a'' 3
          (run [(SetKey ''b'' (JNum 2) (Some 60) False, 1), (Sweep, 2)]
             (set_cache ''a'' (JNum 1) (Some 60) 0 False
                (fresh\<lparr>config := default_config\<lparr>maxSize := 1\<rparr>\<rparr>)))) = JNull"
proof -
  have a: "fst (get ''x'' 2000 (set_cache ''x'' (JNum 42) (Some 1) 1000 False fresh)) = JNum 42"
    by (simp add: get_def cache_set_quiet map_get_def fresh_def is_expired_def)
  let ?s0 = "fresh\<lparr>config := default_config\<lparr>maxSize := 1\<rparr>\<rparr>"
  let ?s1 = "set_cache ''a'' (JNum 1) (Some 60) 0 False ?s0"
  let ?s2 = "set_cache ''b'' (JNum 2) (Some 60) 1 False ?s1"
  have c2: "cache ?s2 =
      [(''a'', \<lparr>data = JNum 1, created = 0, lastAccessed = 0, expires = Some 60000\<rparr>),
       (''b'', \<lparr>data = JNum 2, created = 1, lastAccessed = 1, expires = Some 60001\<rparr>)]"
    by (simp add: cache_set_quiet fresh_def)
  have m2: "maxSize (config ?s2) = 1"
    by (simp add: default_config_def)
  have "cache (cleanup 2 ?s2) =
      [(''b'', \<lparr>data = JNum 2, created = 1, lastAccessed = 1, expires = Some 60001\<rparr>)]"
    by (simp add: cache_cleanup expire_loop_cache size_pass_def Let_def evict_loop_cache c2 m2
          is_expired_def by_created_def map_delete_def)
  then have "fst (get ''a'' 3 (cleanup 2 ?s2)) = JNull"
    by (simp add: get_def map_get_def)
  then have b: "fst (get ''a'' 3
          (run [(SetKey ''b'' (JNum 2) (Some 60) False, 1), (Sweep, 2)] ?s1)) = JNull"
    by (simp add: run_def step_def)
  from a b show ?thesis by simp
qed

text \<open>
  A time to live above \<open>2147483\<close> seconds does not fit the timer facility: the handle
  is due one millisecond after the insertion, and the entry is gone once it has fired.
\<close>

lemma long_ttl_timer_is_due_at_once:
  "map_get (timers (set_cache ''k'' (JNum 1) (Some 3000000) 0 False fresh)) ''k''
     = Some \<lparr>tid = 0, tkey = ''k'', due = 1\<rparr> \<and>
   fst (get ''k'' 2
          (run [(Fire \<lparr>tid = 0, tkey = ''k'', due = 1\<rparr>, 1)]
             (set_cache ''k'' (JNum 1) (Some 3000000) 0 False fresh))) = JNull"
proof -
  let ?t = "\<lparr>tid = 0, tkey = ''k'', due = 1\<rparr>"
  have s: "set_cache ''k'' (JNum 1) (Some 3000000) 0 False fresh =
     \<lparr>cache = [(''k'', \<lparr>data = JNum 1, created = 0, lastAccessed = 0,
                          expires = Some 3000000000\<rparr>)],
      timers = [(''k'', ?t)], config = default_config, cleanupTimer = Some 60000,
      timeouts = [?t], next_tid = 1, sink = []\<rparr>"
    by (simp add: set_cache_def fresh_def clear_timer_def map_get_def truthy_def
          setTimeout_def node_delay_def Let_def)
  show ?thesis
    by (simp add: s run_def step_def fire_def map_delete_def get_def map_get_def)
qed

section \<open>Entries without expiry\<close>





lemma calm_without_expiry:
  "calm k None ev s =
     (\<not> writes_key k (fst ev) \<and> \<not> deletes_key k (fst ev) \<and>
      (case sweep_of (fst ev) (snd ev) s of None \<Rightarrow> True
       | Some (now, u) \<Rightarrow> k \<notin> set (evicted_keys now u)))"
proof -
  have "timer_waits k None (fst ev) (snd ev)"
    by (cases "fst ev") simp_all
  then show ?thesis
    by (simp add: calm_def valid_at_def split: option.splits)
qed



section \<open>A stored \<open>null\<close>\<close>

text \<open>
  C10. After \<open>set(k, null, t)\<close>, \<open>get(k)\<close> returns \<open>null\<close>, \<open>has(k)\<close> returns \<open>false\<close> and
  \<open>getOrSet(k, producer, t)\<close> invokes the producer. The same holds in every state
  where \<open>k\<close> has an unexpired entry with the data \<open>null\<close> (and there \<open>getOrSet\<close> returns
  what the producer gives), and \<open>get\<close> and \<open>has\<close> give the same results for a key
  without an entry.
\<close>

theorem null_is_absent:
  "fst (get k now (set_cache k JNull ttl t0 rnd s)) = JNull \<and>
   \<not> fst (has k now (set_cache k JNull ttl t0 rnd s)) \<and>
   snd (fst (getOrSet k queryFn ttl' now now' rnd' (set_cache k JNull ttl t0 rnd s))) \<and>
   (\<forall>e. map_get (cache s) k = Some e \<and> data e = JNull \<and> \<not> is_expired e now \<longrightarrow>
      fst (get k now s) = JNull \<and> \<not> fst (has k now s) \<and>
      snd (fst (getOrSet k queryFn ttl' now now' rnd' s)) \<and>
      (\<forall>d. queryFn = Fulfilled d \<longrightarrow>
         fst (fst (getOrSet k queryFn ttl' now now' rnd' s)) = Fulfilled d)) \<and>
   (map_get (cache s) k = None \<longrightarrow> fst (get k now s) = JNull \<and> \<not> fst (has k now s))"
proof -
  have null: "fst (get k now u) = JNull" if "stored_or_gone k JNull x u" for x u
    using that by (auto simp: stored_or_gone_def get_def split: option.splits)
  have a: "fst (get k now (set_cache k JNull ttl t0 rnd s)) = JNull"
    using sog_after_set [where k = k and v = JNull and ttl = ttl and now = t0 and rnd = rnd
        and s = s] by (rule null)
  have gos: "snd (fst (getOrSet k queryFn ttl' now now' rnd' u)) \<and>
      (\<forall>d. queryFn = Fulfilled d \<longrightarrow>
         fst (fst (getOrSet k queryFn ttl' now now' rnd' u)) = Fulfilled d)"
    if "fst (get k now u) = JNull" for u
    using that
    by (auto simp: getOrSet_def Let_def split: prod.splits promise.splits sum.splits)
  have hs: "\<not> fst (has k now u)" if "fst (get k now u) = JNull" for u
    using that by (auto simp: has_def split: prod.splits)
  have b: "fst (get k now s) = JNull" if "map_get (cache s) k = Some e \<and> data e = JNull" for e
    using that by (auto simp: get_def)
  have c: "fst (get k now s) = JNull" if "map_get (cache s) k = None"
    using that by (simp add: get_def)
  from a b c gos hs show ?thesis by blast
qed

theorem null_is_absent_witness:
  "map_get (cache (set_cache ''k'' JNull (Some 60) 0 False fresh)) ''k''
     = Some \<lparr>data = JNull, created = 0, lastAccessed = 0, expires = Some 60000\<rparr> \<and>
   data \<lparr>data = JNull, created = 0, lastAccessed = 0, expires = Some 60000\<rparr> = JNull \<and>
   \<not> is_expired \<lparr>data = JNull, created = 0, lastAccessed = 0, expires = Some 60000\<rparr> 1 \<and>
   fst (get ''k'' 1 (set_cache ''k'' JNull (Some 60) 0 False fresh)) = JNull \<and>
   \<not> fst (has ''k'' 1 (set_cache ''k'' JNull (Some 60) 0 False fresh)) \<and>
   snd (fst (getOrSet ''k'' (Fulfilled (JNum 7)) None 1 2 False
               (set_cache ''k'' JNull (Some 60) 0 False fresh))) \<and>
   fst (fst (getOrSet ''k'' (Fulfilled (JNum 7)) None 1 2 False
               (set_cache ''k'' JNull (Some 60) 0 False fresh))) = Fulfilled (JNum 7) \<and>
   map_get (cache fresh) ''k'' = None \<and>
   fst (get ''k'' 1 fresh) = JNull \<and> \<not> fst (has ''k'' 1 fresh)"
proof -
  let ?s1 = "set_cache ''k'' JNull (Some 60) 0 False fresh"
  let ?e = "\<lparr>data = JNull, created = 0, lastAccessed = 0, expires = Some 60000\<rparr>"
  have h1: "map_get (cache ?s1) ''k'' = Some ?e"
    by (simp add: cache_set_quiet map_get_def fresh_def)
  have h2: "\<not> is_expired ?e 1"
    by (simp add: is_expired_def)
  have h3: "map_get (cache fresh) ''k'' = None"
    by (simp add: map_get_def fresh_def)
  from null_is_absent [of "''k''" 1 "Some 60" 0 False ?s1 "Fulfilled (JNum 7)" None 2 False]
    h1 h2
  have a: "fst (get ''k'' 1 ?s1) = JNull \<and> \<not> fst (has ''k'' 1 ?s1) \<and>
      snd (fst (getOrSet ''k'' (Fulfilled (JNum 7)) None 1 2 False ?s1)) \<and>
      fst (fst (getOrSet ''k'' (Fulfilled (JNum 7)) None 1 2 False ?s1)) = Fulfilled (JNum 7)"
    by simp
  from null_is_absent [of "''k''" 1 "Some 60" 0 False fresh "Fulfilled (JNum 7)" None 2 False] h3
  have b: "fst (get ''k'' 1 fresh) = JNull \<and> \<not> fst (has ''k'' 1 fresh)"
    by simp
  from a b h1 h2 h3 show ?thesis by simp
qed

section \<open>Key generation\<close>

lemma set_js_insort: "set (js_insort cmp x xs) = insert x (set xs)"
  by (induction xs) auto

lemma sorted_js_insort:
  assumes "linear_on cmp K" and "x \<in> K" and "set xs \<subseteq> K"
    and "sorted_wrt (\<lambda>a b. cmp a b \<le> 0) xs"
  shows "sorted_wrt (\<lambda>a b. cmp a b \<le> 0) (js_insort cmp x xs)"
  using assms(3,4)
proof (induction xs)
  case Nil
  then show ?case by simp
next
  case (Cons y ys)
  have tot: "\<And>a b. a \<in> K \<Longrightarrow> b \<in> K \<Longrightarrow> cmp a b \<le> 0 \<or> cmp b a \<le> 0"
    and trans: "\<And>a b c. a \<in> K \<Longrightarrow> b \<in> K \<Longrightarrow> c \<in> K \<Longrightarrow> cmp a b \<le> 0 \<Longrightarrow> cmp b c \<le> 0
                  \<Longrightarrow> cmp a c \<le> 0"
    using assms(1) unfolding linear_on_def by blast+
  from Cons.prems have yK: "y \<in> K" and ysK: "set ys \<subseteq> K" by simp_all
  show ?case
  proof (cases "cmp x y \<le> 0")
    case True
    have "\<forall>z\<in>set ys. cmp x z \<le> 0"
    proof
      fix z assume z: "z \<in> set ys"
      with Cons.prems have "cmp y z \<le> 0" by simp
      with True show "cmp x z \<le> 0"
        using trans [of x y z] assms(2) yK ysK z by blast
    qed
    with True Cons.prems show ?thesis by simp
  next
    case False
    then have "cmp y x \<le> 0" using tot [of x y] assms(2) yK by blast
    moreover have "sorted_wrt (\<lambda>a b. cmp a b \<le> 0) (js_insort cmp x ys)"
      using Cons.IH Cons.prems ysK by simp
    ultimately show ?thesis
      using False Cons.prems by (simp add: set_js_insort)
  qed
qed

lemma sorted_js_sort:
  assumes "linear_on cmp K" and "set xs \<subseteq> K"
  shows "sorted_wrt (\<lambda>a b. cmp a b \<le> 0) (js_sort cmp xs)"
  using assms(2)
proof (induction xs)
  case Nil
  then show ?case by simp
next
  case (Cons x xs)
  then have "sorted_wrt (\<lambda>a b. cmp a b \<le> 0) (js_sort cmp xs)" by simp
  moreover have "set (js_sort cmp xs) \<subseteq> K" using Cons.prems by (simp add: set_js_sort)
  moreover have "x \<in> K" using Cons.prems by simp
  ultimately show ?case
    using sorted_js_insort [OF assms(1)] by simp
qed

lemma sorted_distinct_unique:
  assumes "linear_on cmp K"
  shows "set xs \<subseteq> K \<Longrightarrow> sorted_wrt (\<lambda>a b. cmp a b \<le> 0) xs \<Longrightarrow>
         sorted_wrt (\<lambda>a b. cmp a b \<le> 0) ys \<Longrightarrow> distinct xs \<Longrightarrow> distinct ys \<Longrightarrow>
         set xs = set ys \<Longrightarrow> xs = ys"
proof (induction xs arbitrary: ys)
  case Nil
  then show ?case by simp
next
  case (Cons x xs)
  have anti: "\<And>a b. a \<in> K \<Longrightarrow> b \<in> K \<Longrightarrow> cmp a b \<le> 0 \<Longrightarrow> cmp b a \<le> 0 \<Longrightarrow> a = b"
    using assms unfolding linear_on_def by blast
  from Cons.prems obtain y ys' where ys: "ys = y # ys'"
    by (cases ys) auto
  have xK: "x \<in> K" and yK: "y \<in> K"
    using Cons.prems ys by auto
  have "x = y"
  proof (rule ccontr)
    assume ne: "x \<noteq> y"
    have "x \<in> set ys'" using Cons.prems ys ne by auto
    then have 1: "cmp y x \<le> 0" using Cons.prems(3) ys by simp
    have "y \<in> set xs" using Cons.prems ys ne by auto
    then have 2: "cmp x y \<le> 0" using Cons.prems(2) by simp
    from anti [OF xK yK 2 1] ne show False by simp
  qed
  moreover have "xs = ys'"
  proof (rule Cons.IH)
    show "set xs \<subseteq> K" using Cons.prems by simp
    show "sorted_wrt (\<lambda>a b. cmp a b \<le> 0) xs" using Cons.prems by simp
    show "sorted_wrt (\<lambda>a b. cmp a b \<le> 0) ys'" using Cons.prems ys by simp
    show "distinct xs" using Cons.prems by simp
    show "distinct ys'" using Cons.prems ys by simp
    show "set xs = set ys'" using Cons.prems ys \<open>x = y\<close> by auto
  qed
  ultimately show ?case using ys by simp
qed

lemma mset_own_order: "mset (own_order ps) = mset ps"
  by (simp add: own_order_def)

lemma set_Object_keys: "set (Object_keys ps) = fst ` set ps"
proof -
  have "set (own_order ps) = set ps"
    by (metis mset_own_order set_mset_mset)
  then show ?thesis by (simp add: Object_keys_def)
qed

lemma distinct_Object_keys: "distinct (map fst ps) \<Longrightarrow> distinct (Object_keys ps)"
proof -
  assume d: "distinct (map fst ps)"
  have "mset (map fst (own_order ps)) = mset (map fst ps)"
    by (metis mset_map mset_own_order)
  with d show ?thesis
    unfolding Object_keys_def by (metis mset_eq_imp_distinct_iff)
qed

lemma sorted_keys_eq:
  assumes "linear_on cmp (fst ` set p1)"
    and "distinct (map fst p1)" and "distinct (map fst p2)" and "set p1 = set p2"
  shows "js_sort cmp (Object_keys p1) = js_sort cmp (Object_keys p2)"
proof (rule sorted_distinct_unique [OF assms(1)])
  show "set (js_sort cmp (Object_keys p1)) \<subseteq> fst ` set p1"
    by (simp add: set_js_sort set_Object_keys)
  show "sorted_wrt (\<lambda>a b. cmp a b \<le> 0) (js_sort cmp (Object_keys p1))"
    by (rule sorted_js_sort [OF assms(1)]) (simp add: set_Object_keys)
  show "sorted_wrt (\<lambda>a b. cmp a b \<le> 0) (js_sort cmp (Object_keys p2))"
    by (rule sorted_js_sort [OF assms(1)]) (simp add: set_Object_keys assms(4))
  show "distinct (js_sort cmp (Object_keys p1))"
    using assms(2) by (simp add: distinct_js_sort distinct_Object_keys)
  show "distinct (js_sort cmp (Object_keys p2))"
    using assms(3) by (simp add: distinct_js_sort distinct_Object_keys)
  show "set (js_sort cmp (Object_keys p1)) = set (js_sort cmp (Object_keys p2))"
    by (simp add: set_js_sort set_Object_keys assms(4))
qed

lemma generateKey_linear_keys:
  assumes "linear_on (localeCompare other) (fst ` set p1)"
    and "distinct (map fst p1)" and "distinct (map fst p2)" and "set p1 = set p2"
  shows "generateKey other e p1 = generateKey other e p2"
proof -
  have "map_of p1 = map_of p2"
    using assms(2,3,4) by (simp add: map_of_inject_set)
  then have "obj_get p1 = obj_get p2"
    by (simp add: obj_get_def fun_eq_iff)
  moreover have "js_sort (localeCompare other) (Object_keys p1)
                   = js_sort (localeCompare other) (Object_keys p2)"
    using assms by (rule sorted_keys_eq)
  ultimately show ?thesis
    by (simp add: generateKey_def)
qed

lemma generateKey_no_params: "generateKey other e [] = ''api:'' @ e"
  by (simp add: generateKey_def Object_keys_def own_order_def)

subsection \<open>Comparison by code unit\<close>

lemma code_inject: "code c = code d \<longleftrightarrow> c = d"
  by (simp add: code_def)

lemma code_unit_compare_flip: "code_unit_compare b a = - code_unit_compare a b"
  by (induction a b rule: code_unit_compare.induct) auto

lemma code_unit_compare_eq: "code_unit_compare a b = 0 \<longleftrightarrow> a = b"
  by (induction a b rule: code_unit_compare.induct) (auto simp: code_inject)

lemma code_unit_compare_Cons:
  "code_unit_compare (x # xs) (y # ys) \<le> 0 \<longleftrightarrow>
     code x < code y \<or> (x = y \<and> code_unit_compare xs ys \<le> 0)"
  by (auto simp: code_inject)

lemma code_unit_compare_le_trans:
  "code_unit_compare a b \<le> 0 \<Longrightarrow> code_unit_compare b c \<le> 0 \<Longrightarrow> code_unit_compare a c \<le> 0"
proof (induction a b arbitrary: c rule: code_unit_compare.induct)
  case 1
  then show ?case by simp
next
  case (2 y ys)
  then show ?case by (cases c) simp_all
next
  case (3 x xs)
  then show ?case by simp
next
  case (4 x xs y ys)
  from "4.prems"(2) obtain z zs where c: "c = z # zs"
    by (cases c) simp_all
  from "4.prems"(1) have ab: "code x < code y \<or> (x = y \<and> code_unit_compare xs ys \<le> 0)"
    by (simp only: code_unit_compare_Cons)
  from "4.prems"(2) c have bc: "code y < code z \<or> (y = z \<and> code_unit_compare ys zs \<le> 0)"
    by (simp only: code_unit_compare_Cons)
  have "code x < code z \<or> (x = z \<and> code_unit_compare xs zs \<le> 0)"
  proof (cases "x = y \<and> y = z")
    case True
    with ab bc have "code_unit_compare xs ys \<le> 0" "code_unit_compare ys zs \<le> 0" by simp_all
    moreover have "\<not> code x < code y" "\<not> code y < code x"
      using True by simp_all
    ultimately have "code_unit_compare xs zs \<le> 0"
      using "4.IH" by blast
    with True show ?thesis by simp
  next
    case False
    with ab bc have "code x < code z"
      by (metis less_trans)
    then show ?thesis by simp
  qed
  then show ?case
    unfolding c by (simp only: code_unit_compare_Cons)
qed

lemma linear_on_code_unit_compare: "linear_on code_unit_compare K"
  unfolding linear_on_def
proof (intro conjI ballI impI)
  fix a b
  show "code_unit_compare a b \<le> 0 \<or> code_unit_compare b a \<le> 0"
    using code_unit_compare_flip [of b a] by linarith
next
  fix a b assume "code_unit_compare a b \<le> 0 \<and> code_unit_compare b a \<le> 0"
  then have "code_unit_compare a b = 0"
    using code_unit_compare_flip [of b a] by linarith
  then show "a = b" by (simp add: code_unit_compare_eq)
next
  fix a b c assume "code_unit_compare a b \<le> 0 \<and> code_unit_compare b c \<le> 0"
  then show "code_unit_compare a c \<le> 0"
    using code_unit_compare_le_trans by blast
qed

text \<open>
  The legacy variant, which sorts by code unit, gives the same key for the same
  bindings whatever the keys are.
\<close>

lemma legacy_generateKey_order_insensitive:
  assumes "distinct (map fst p1)" and "distinct (map fst p2)" and "set p1 = set p2"
  shows "legacy_generateKey e p1 = legacy_generateKey e p2"
proof -
  have "map_of p1 = map_of p2"
    using assms by (simp add: map_of_inject_set)
  then have "obj_get p1 = obj_get p2"
    by (simp add: obj_get_def fun_eq_iff)
  moreover have "js_sort code_unit_compare (Object_keys p1)
                   = js_sort code_unit_compare (Object_keys p2)"
    using linear_on_code_unit_compare assms by (rule sorted_keys_eq)
  ultimately show ?thesis
    by (simp add: legacy_generateKey_def)
qed

subsection \<open>The collation on keys of letters and digits\<close>

lemma lex_compare_flip: "lex_compare b a = - lex_compare a b"
  by (induction a b rule: lex_compare.induct) auto

lemma lex_compare_eq: "lex_compare a b = 0 \<longleftrightarrow> a = b"
  by (induction a b rule: lex_compare.induct) auto

lemma lex_compare_Cons:
  "lex_compare (x # xs) (y # ys) \<le> 0 \<longleftrightarrow> x < y \<or> (x = y \<and> lex_compare xs ys \<le> 0)"
  by auto

lemma lex_compare_le_trans:
  "lex_compare a b \<le> 0 \<Longrightarrow> lex_compare b c \<le> 0 \<Longrightarrow> lex_compare a c \<le> 0"
proof (induction a b arbitrary: c rule: lex_compare.induct)
  case 1
  then show ?case by simp
next
  case (2 y ys)
  then show ?case by (cases c) simp_all
next
  case (3 x xs)
  then show ?case by simp
next
  case (4 x xs y ys)
  from "4.prems"(2) obtain z zs where c: "c = z # zs"
    by (cases c) simp_all
  from "4.prems"(1) have ab: "x < y \<or> (x = y \<and> lex_compare xs ys \<le> 0)"
    by (simp only: lex_compare_Cons)
  from "4.prems"(2) c have bc: "y < z \<or> (y = z \<and> lex_compare ys zs \<le> 0)"
    by (simp only: lex_compare_Cons)
  have "x < z \<or> (x = z \<and> lex_compare xs zs \<le> 0)"
  proof (cases "x = y \<and> y = z")
    case True
    with ab bc have "lex_compare xs ys \<le> 0" "lex_compare ys zs \<le> 0" by simp_all
    moreover have "\<not> x < y" "\<not> y < x"
      using True by simp_all
    ultimately have "lex_compare xs zs \<le> 0"
      using "4.IH" by blast
    with True show ?thesis by simp
  next
    case False
    with ab bc have "x < z"
      by (metis less_trans)
    then show ?thesis by simp
  qed
  then show ?case
    unfolding c by (simp only: lex_compare_Cons)
qed

lemma lex_compare_neg: "lex_compare a b < 0 \<longleftrightarrow> lex_compare a b \<le> 0 \<and> a \<noteq> b"
  using lex_compare_eq [of a b] by auto

lemma lex_compare_neg_trans:
  assumes "lex_compare a b < 0" and "lex_compare b c \<le> 0"
  shows "lex_compare a c < 0"
proof -
  have le: "lex_compare a c \<le> 0"
    using assms lex_compare_le_trans [of a b c] by simp
  have "a \<noteq> c"
  proof
    assume "a = c"
    with assms(2) have "lex_compare b a \<le> 0" by simp
    with assms(1) show False using lex_compare_flip [of b a] by simp
  qed
  with le show ?thesis by (simp add: lex_compare_neg)
qed

lemma lex_compare_trans_neg:
  assumes "lex_compare a b \<le> 0" and "lex_compare b c < 0"
  shows "lex_compare a c < 0"
proof -
  have le: "lex_compare a c \<le> 0"
    using assms lex_compare_le_trans [of a b c] by simp
  have "a \<noteq> c"
  proof
    assume "a = c"
    with assms(1) have "lex_compare c b \<le> 0" by simp
    with assms(2) show False using lex_compare_flip [of c b] by simp
  qed
  with le show ?thesis by (simp add: lex_compare_neg)
qed

text \<open>Keys of ASCII letters and digits only.\<close>

lemma plain_covered: "list_all alnum a \<Longrightarrow> covered a"
  by (simp add: covered_def list_all_iff)

lemma alnum_not_ignorable: "alnum c \<Longrightarrow> \<not> ignorable c"
  by (auto simp: alnum_def ignorable_def)

lemma plain_filter: "list_all alnum a \<Longrightarrow> filter (\<lambda>c. \<not> ignorable c) a = a"
  by (induction a) (simp_all add: alnum_not_ignorable)

lemma collate_plain:
  assumes "list_all alnum a" and "list_all alnum b"
  shows "localeCompare other a b =
           (if lex_compare (map primary a) (map primary b) \<noteq> 0
            then lex_compare (map primary a) (map primary b)
            else lex_compare (map tertiary a) (map tertiary b))"
  using assms by (simp add: localeCompare_def collate_def plain_covered plain_filter Let_def)

lemma collate_plain_le:
  assumes "list_all alnum a" and "list_all alnum b"
  shows "localeCompare other a b \<le> 0 \<longleftrightarrow>
           lex_compare (map primary a) (map primary b) < 0 \<or>
           (map primary a = map primary b \<and>
            lex_compare (map tertiary a) (map tertiary b) \<le> 0)"
  using lex_compare_eq [of "map primary a" "map primary b"]
  by (auto simp: collate_plain [OF assms])

lemma weights_inject:
  assumes "alnum c" and "alnum d" and "primary c = primary d" and "tertiary c = tertiary d"
  shows "c = d"
proof -
  have "code c = code d"
    using assms by (auto simp: alnum_def primary_def tertiary_def split: if_splits)
  then show ?thesis by (simp add: code_inject)
qed

lemma weights_inject_list:
  "list_all alnum a \<Longrightarrow> list_all alnum b \<Longrightarrow> map primary a = map primary b \<Longrightarrow>
   map tertiary a = map tertiary b \<Longrightarrow> a = b"
proof (induction a arbitrary: b)
  case Nil
  then show ?case by simp
next
  case (Cons x xs)
  then obtain y ys where b: "b = y # ys" by (cases b) simp_all
  with Cons.prems have "x = y" by (intro weights_inject) simp_all
  moreover from Cons.prems b have "xs = ys" by (intro Cons.IH) simp_all
  ultimately show ?case using b by simp
qed

lemma linear_on_plain:
  assumes "\<forall>k\<in>K. list_all alnum k"
  shows "linear_on (localeCompare other) K"
  unfolding linear_on_def
proof (intro conjI ballI impI)
  fix a b assume "a \<in> K" "b \<in> K"
  then have p: "list_all alnum a" "list_all alnum b" using assms by simp_all
  show "localeCompare other a b \<le> 0 \<or> localeCompare other b a \<le> 0"
    using lex_compare_flip [of "map primary b" "map primary a"]
      lex_compare_flip [of "map tertiary b" "map tertiary a"]
    by (simp add: collate_plain [OF p] collate_plain [OF p(2,1)]) linarith
next
  fix a b assume "a \<in> K" "b \<in> K"
    and h: "localeCompare other a b \<le> 0 \<and> localeCompare other b a \<le> 0"
  then have p: "list_all alnum a" "list_all alnum b" using assms by simp_all
  from h have 1: "lex_compare (map primary a) (map primary b) < 0 \<or>
           (map primary a = map primary b \<and>
            lex_compare (map tertiary a) (map tertiary b) \<le> 0)"
    and 2: "lex_compare (map primary b) (map primary a) < 0 \<or>
           (map primary b = map primary a \<and>
            lex_compare (map tertiary b) (map tertiary a) \<le> 0)"
    by (simp_all add: collate_plain_le [OF p] collate_plain_le [OF p(2,1)])
  have pe: "map primary a = map primary b"
    using 1 2 lex_compare_flip [of "map primary b" "map primary a"] by auto
  then have "lex_compare (map tertiary a) (map tertiary b) \<le> 0"
    "lex_compare (map tertiary b) (map tertiary a) \<le> 0"
    using 1 2 lex_compare_eq [of "map primary a" "map primary b"] by auto
  then have "lex_compare (map tertiary a) (map tertiary b) = 0"
    using lex_compare_flip [of "map tertiary b" "map tertiary a"] by simp
  then have "map tertiary a = map tertiary b" by (simp add: lex_compare_eq)
  with pe p show "a = b" by (intro weights_inject_list)
next
  fix a b c assume "a \<in> K" "b \<in> K" "c \<in> K"
    and h: "localeCompare other a b \<le> 0 \<and> localeCompare other b c \<le> 0"
  then have p: "list_all alnum a" "list_all alnum b" "list_all alnum c"
    using assms by simp_all
  from h have 1: "lex_compare (map primary a) (map primary b) < 0 \<or>
           (map primary a = map primary b \<and>
            lex_compare (map tertiary a) (map tertiary b) \<le> 0)"
    and 2: "lex_compare (map primary b) (map primary c) < 0 \<or>
           (map primary b = map primary c \<and>
            lex_compare (map tertiary b) (map tertiary c) \<le> 0)"
    by (simp_all add: collate_plain_le [OF p(1,2)] collate_plain_le [OF p(2,3)])
  have "lex_compare (map primary a) (map primary c) < 0 \<or>
           (map primary a = map primary c \<and>
            lex_compare (map tertiary a) (map tertiary c) \<le> 0)"
  proof (cases "lex_compare (map primary a) (map primary b) < 0")
    case True
    have "lex_compare (map primary b) (map primary c) \<le> 0"
      using 2 by (auto simp: lex_compare_eq [THEN iffD2])
    with True show ?thesis using lex_compare_neg_trans by blast
  next
    case False
    with 1 have ab: "map primary a = map primary b"
      "lex_compare (map tertiary a) (map tertiary b) \<le> 0" by simp_all
    show ?thesis
    proof (cases "lex_compare (map primary b) (map primary c) < 0")
      case True
      with ab show ?thesis by simp
    next
      case False
      with 2 have bc: "map primary b = map primary c"
        "lex_compare (map tertiary b) (map tertiary c) \<le> 0" by simp_all
      with ab show ?thesis
        using lex_compare_le_trans by auto
    qed
  qed
  then show "localeCompare other a c \<le> 0"
    by (simp only: collate_plain_le [OF p(1,3)])
qed

text \<open>
  On parameter objects whose keys are made of ASCII letters and digits, the key is a
  function of the endpoint and the bindings.
\<close>

lemma generateKey_plain_keys:
  assumes "\<forall>k\<in>fst ` set p1. list_all alnum k"
    and "distinct (map fst p1)" and "distinct (map fst p2)" and "set p1 = set p2"
  shows "generateKey other e p1 = generateKey other e p2"
  using linear_on_plain [OF assms(1)] assms(2-4) by (rule generateKey_linear_keys)

lemma generateKey_two_params:
  "generateKey other ''e'' [(''b'', JNum 2), (''a'', JNum 1)]
     = generateKey other ''e'' [(''a'', JNum 1), (''b'', JNum 2)] \<and>
   generateKey other ''e'' [(''a'', JNum 1), (''b'', JNum 2)]
     = ''api:e:{'' @ [CHR 0x22] @ ''a'' @ [CHR 0x22] @ '':1,'' @ [CHR 0x22] @ ''b'' @ [CHR 0x22]
         @ '':2}''"
proof -
  have h: "\<forall>k\<in>fst ` set [(''b'', JNum 2), (''a'', JNum 1)]. list_all alnum k"
    by (simp add: alnum_def code_def)
  have s: "set [(''b'', JNum 2), (''a'', JNum 1)] = set [(''a'', JNum 1), (''b'', JNum 2)]"
    by auto
  have "generateKey other ''e'' [(''b'', JNum 2), (''a'', JNum 1)]
     = generateKey other ''e'' [(''a'', JNum 1), (''b'', JNum 2)]"
    using h _ _ s by (rule generateKey_plain_keys) simp_all
  moreover have "generateKey other ''e'' [(''a'', JNum 1), (''b'', JNum 2)]
     = ''api:e:{'' @ [CHR 0x22] @ ''a'' @ [CHR 0x22] @ '':1,'' @ [CHR 0x22] @ ''b'' @ [CHR 0x22]
         @ '':2}''"
    by (simp add: generateKey_def Object_keys_def own_order_def is_index_def is_digit_def
          index_val_def obj_assign_def obj_get_def show_int_def show_digits.simps json_quote_def
          json_escape_def Let_def localeCompare_def covered_def collate_def ignorable_def
          alnum_def code_def primary_def tertiary_def)
  ultimately show ?thesis by simp
qed

text \<open>
  C6. The keys are sorted with the collation, which sets the control character
  \<open>U+0001\<close> aside: the keys \<open>a\<close> and \<open>a\<close> followed by \<open>U+0001\<close> compare as equal, the
  sort leaves them in the order of their creation, and the two parameter objects that
  bind \<open>a\<close> to 1 and the other key to 2 give two different keys for the endpoint \<open>e\<close>.
  The legacy variant gives one key for both.
\<close>

theorem generateKey_order_sensitive:
  "localeCompare other ''a'' [CHR ''a'', CHR 0x01] = 0 \<and>
   localeCompare other [CHR ''a'', CHR 0x01] ''a'' = 0 \<and>
   generateKey other ''e'' [(''a'', JNum 1), ([CHR ''a'', CHR 0x01], JNum 2)]
     = ''api:e:{'' @ [CHR 0x22] @ ''a'' @ [CHR 0x22] @ '':1,'' @ [CHR 0x22] @ ''a''
         @ [CHR 0x5C] @ ''u0001'' @ [CHR 0x22] @ '':2}'' \<and>
   generateKey other ''e'' [([CHR ''a'', CHR 0x01], JNum 2), (''a'', JNum 1)]
     = ''api:e:{'' @ [CHR 0x22] @ ''a'' @ [CHR 0x5C] @ ''u0001'' @ [CHR 0x22] @ '':2,''
         @ [CHR 0x22] @ ''a'' @ [CHR 0x22] @ '':1}'' \<and>
   generateKey other ''e'' [(''a'', JNum 1), ([CHR ''a'', CHR 0x01], JNum 2)]
     \<noteq> generateKey other ''e'' [([CHR ''a'', CHR 0x01], JNum 2), (''a'', JNum 1)] \<and>
   legacy_generateKey ''e'' [(''a'', JNum 1), ([CHR ''a'', CHR 0x01], JNum 2)]
     = legacy_generateKey ''e'' [([CHR ''a'', CHR 0x01], JNum 2), (''a'', JNum 1)]"
proof -
  have c: "localeCompare other ''a'' [CHR ''a'', CHR 0x01] = 0"
    "localeCompare other [CHR ''a'', CHR 0x01] ''a'' = 0"
    by (simp_all add: localeCompare_def covered_def collate_def ignorable_def alnum_def
          code_def primary_def tertiary_def)
  have k1: "generateKey other ''e'' [(''a'', JNum 1), ([CHR ''a'', CHR 0x01], JNum 2)]
     = ''api:e:{'' @ [CHR 0x22] @ ''a'' @ [CHR 0x22] @ '':1,'' @ [CHR 0x22] @ ''a''
         @ [CHR 0x5C] @ ''u0001'' @ [CHR 0x22] @ '':2}''"
    by (simp add: generateKey_def Object_keys_def own_order_def is_index_def is_digit_def
          index_val_def obj_assign_def obj_get_def show_int_def show_digits.simps json_quote_def
          json_escape_def Let_def c)
  have k2: "generateKey other ''e'' [([CHR ''a'', CHR 0x01], JNum 2), (''a'', JNum 1)]
     = ''api:e:{'' @ [CHR 0x22] @ ''a'' @ [CHR 0x5C] @ ''u0001'' @ [CHR 0x22] @ '':2,''
         @ [CHR 0x22] @ ''a'' @ [CHR 0x22] @ '':1}''"
    by (simp add: generateKey_def Object_keys_def own_order_def is_index_def is_digit_def
          index_val_def obj_assign_def obj_get_def show_int_def show_digits.simps json_quote_def
          json_escape_def Let_def c)
  have ne: "generateKey other ''e'' [(''a'', JNum 1), ([CHR ''a'', CHR 0x01], JNum 2)]
     \<noteq> generateKey other ''e'' [([CHR ''a'', CHR 0x01], JNum 2), (''a'', JNum 1)]"
    by (simp add: k1 k2)
  have "set [(''a'', JNum 1), ([CHR ''a'', CHR 0x01], JNum 2)]
          = set [([CHR ''a'', CHR 0x01], JNum 2), (''a'', JNum 1)]"
    by auto
  then have l: "legacy_generateKey ''e'' [(''a'', JNum 1), ([CHR ''a'', CHR 0x01], JNum 2)]
     = legacy_generateKey ''e'' [([CHR ''a'', CHR 0x01], JNum 2), (''a'', JNum 1)]"
    by (intro legacy_generateKey_order_insensitive) simp_all
  from c k1 k2 ne l show ?thesis by blast
qed

text \<open>
  Only the keys of the parameter object itself are sorted. A value that is an object is
  serialised with its keys in their own creation order.
\<close>

lemma generateKey_nested_order:
  "generateKey other ''e'' [(''a'', JObj [(''x'', JNum 1), (''y'', JNum 2)])]
     = ''api:e:{'' @ [CHR 0x22] @ ''a'' @ [CHR 0x22] @ '':{'' @ [CHR 0x22] @ ''x'' @ [CHR 0x22]
         @ '':1,'' @ [CHR 0x22] @ ''y'' @ [CHR 0x22] @ '':2}}'' \<and>
   generateKey other ''e'' [(''a'', JObj [(''y'', JNum 2), (''x'', JNum 1)])]
     = ''api:e:{'' @ [CHR 0x22] @ ''a'' @ [CHR 0x22] @ '':{'' @ [CHR 0x22] @ ''y'' @ [CHR 0x22]
         @ '':2,'' @ [CHR 0x22] @ ''x'' @ [CHR 0x22] @ '':1}}''"
  by (simp add: generateKey_def Object_keys_def own_order_def is_index_def is_digit_def
        index_val_def obj_assign_def obj_get_def show_int_def show_digits.simps json_quote_def
        json_escape_def Let_def)

section \<open>Construction and configuration are not validated\<close>






section \<open>A failing producer\<close>

text \<open>
  When the producer is rejected with a value other than \<open>undefined\<close> and \<open>null\<close> and
  \<open>k\<close> has no entry, \<open>getOrSet\<close> is rejected with that value after one call of the
  producer, the log call is made, the two maps and the pending timeouts are unchanged
  and a following \<open>get(k)\<close> returns \<open>null\<close>.
\<close>

lemma getOrSet_rethrows:
  assumes "map_get (cache s) k = None" and "error \<noteq> JUndefined" and "error \<noteq> JNull"
  shows "\<exists>m st. get_prop error ''message'' = Inr m \<and> get_prop error ''stack'' = Inr st \<and>
           getOrSet k (Rejected error) ttl now now' rnd s =
             ((Rejected error, True),
              log ''error'' (''Error executing query for cache key '' @ k)
                [(''error'', m), (''stack'', st)] s)"
proof -
  obtain m st where p: "get_prop error ''message'' = Inr m" "get_prop error ''stack'' = Inr st"
    using assms(2,3) by (cases error) auto
  with assms(1) show ?thesis
    by (simp add: getOrSet_def get_def Let_def)
qed

lemma getOrSet_failure_keeps_store:
  assumes "map_get (cache s) k = None" and "error \<noteq> JUndefined" and "error \<noteq> JNull"
  shows "fst (getOrSet k (Rejected error) ttl now now' rnd s) = (Rejected error, True) \<and>
         cache (snd (getOrSet k (Rejected error) ttl now now' rnd s)) = cache s \<and>
         timers (snd (getOrSet k (Rejected error) ttl now now' rnd s)) = timers s \<and>
         timeouts (snd (getOrSet k (Rejected error) ttl now now' rnd s)) = timeouts s \<and>
         fst (get k now'' (snd (getOrSet k (Rejected error) ttl now now' rnd s))) = JNull \<and>
         (enableLogging (config s) \<and> logger (config s) = Some methods \<and> ''error'' \<in> set methods
            \<longrightarrow> (\<exists>md. sink (snd (getOrSet k (Rejected error) ttl now now' rnd s)) =
                   sink s @ [\<lparr>level = ''error'',
                              message = ''Error executing query for cache key '' @ k,
                              metadata = md\<rparr>]))"
proof -
  from getOrSet_rethrows [OF assms, of ttl now now' rnd]
  obtain m st where r: "getOrSet k (Rejected error) ttl now now' rnd s =
             ((Rejected error, True),
              log ''error'' (''Error executing query for cache key '' @ k)
                [(''error'', m), (''stack'', st)] s)"
    by blast
  show ?thesis
    using assms(1) by (simp add: r get_def) (simp add: log_def)
qed

text \<open>
  C4. A producer rejected with \<open>undefined\<close> or \<open>null\<close>: \<open>getOrSet\<close> is rejected with the
  \<open>TypeError\<close> raised by reading \<open>error.message\<close>, not with the producer's value. A
  producer rejected with an \<open>Error\<close> object: \<open>getOrSet\<close> is rejected with that object.
\<close>

theorem getOrSet_nullish_rejection:
  "fst (getOrSet ''y'' (Rejected JUndefined) None 0 1 False fresh) =
     (Rejected (TypeError (''Cannot read properties of undefined (reading '' @ [CHR 0x27]
                            @ ''message'' @ [CHR 0x27] @ '')'')), True) \<and>
   fst (fst (getOrSet ''y'' (Rejected JUndefined) None 0 1 False fresh)) \<noteq> Rejected JUndefined \<and>
   fst (fst (getOrSet ''y'' (Rejected JNull) None 0 1 False fresh)) \<noteq> Rejected JNull \<and>
   fst (fst (getOrSet ''y'' (Rejected (JError ''Error'' ''boom'')) None 0 1 False fresh))
     = Rejected (JError ''Error'' ''boom'')"
  by (simp add: getOrSet_def get_def map_get_def fresh_def Let_def TypeError_def log_def
        default_config_def)

end
